theory Spec2Isabelle
  imports Complex_Main "HOL-Library.Word" "HOL-Library.Multiset"
begin

section \<open>JavaScript strings, arrays and the date regular expression\<close>

text \<open>
  A JavaScript string is a sequence of UTF-16 code units. \<open>String.prototype.includes\<close>
  and a regular expression without the \<open>u\<close> flag both work on code units, so the
  Korean literals of the source appear below as their code units (all of them lie in the
  Basic Multilingual Plane: one unit each).
\<close>

type_synonym cu = "16 word"
type_synonym jsstring = "cu list"

fun starts_with :: "jsstring \<Rightarrow> jsstring \<Rightarrow> bool" where
  "starts_with s [] = True"
| "starts_with [] (p # ps) = False"
| "starts_with (c # cs) (p # ps) = (c = p \<and> starts_with cs ps)"

text \<open>\<open>s.includes(t)\<close>: \<open>t\<close> occurs in \<open>s\<close> as a contiguous run of code units.\<close>

fun js_includes :: "jsstring \<Rightarrow> jsstring \<Rightarrow> bool" where
  "js_includes [] t = (t = [])"
| "js_includes (c # cs) t = (starts_with (c # cs) t \<or> js_includes cs t)"

text \<open>\<open>xs[i]\<close>: \<open>undefined\<close> (here \<open>None\<close>) outside the array.\<close>

definition js_index :: "'a list \<Rightarrow> nat \<Rightarrow> 'a option" where
  "js_index xs i = (if i < length xs then Some (xs ! i) else None)"

text \<open>\<open>xs.slice(0, count)\<close>: a negative count is taken from the end.\<close>

definition slice0 :: "'a list \<Rightarrow> int \<Rightarrow> 'a list" where
  "slice0 xs n = take (nat (if n < 0 then int (length xs) + n else n)) xs"

text \<open>The decimal digits of a number, as a template literal prints it.\<close>

fun decimal :: "nat \<Rightarrow> jsstring" where
  "decimal n = (if n < 10 then [of_nat (48 + n)] else decimal (n div 10) @ [of_nat (48 + n mod 10)])"

declare decimal.simps [simp del]

text \<open>
  The pattern of \<open>parseTravel\<close> uses three atoms (\<open>\d\<close>, \<open>\s\<close>, a literal code unit),
  each under a greedy quantifier (\<open>?\<close>, \<open>*\<close>, \<open>{m,n}\<close> or none), sequences and
  alternatives. \<open>Rep a lo hi\<close> is atom \<open>a\<close> repeated at least \<open>lo\<close> and at most \<open>hi\<close>
  times (\<open>None\<close>: no upper bound), greedily.
\<close>

datatype atom = Digit | Space | Lit cu

datatype regex = Rep atom nat "nat option" | Seq regex regex | Alt regex regex

fun atom_matches :: "atom \<Rightarrow> cu \<Rightarrow> bool" where
  "atom_matches Digit c = (48 \<le> c \<and> c \<le> 57)"
| "atom_matches Space c =
     (c \<in> set [9, 10, 11, 12, 13, 32, 160, 5760, 8232, 8233, 8239, 8287, 12288, 65279]
      \<or> (8192 \<le> c \<and> c \<le> 8202))"
| "atom_matches (Lit l) c = (c = l)"

text \<open>
  Backtracking, as the list of the remainders a match can leave, the preferred one first:
  a greedy quantifier tries one more repetition before it stops, an alternation tries its
  left branch before its right.
\<close>

fun rep :: "atom \<Rightarrow> nat \<Rightarrow> nat option \<Rightarrow> jsstring \<Rightarrow> jsstring list" where
  "rep a lo hi [] = (if lo = 0 then [[]] else [])"
| "rep a lo hi (c # cs) =
     (if hi \<noteq> Some 0 \<and> atom_matches a c
      then rep a (lo - 1) (map_option (\<lambda>h. h - 1) hi) cs else [])
     @ (if lo = 0 then [c # cs] else [])"

fun run :: "regex \<Rightarrow> jsstring \<Rightarrow> jsstring list" where
  "run (Rep a lo hi) s = rep a lo hi s"
| "run (Seq r1 r2) s = concat (map (run r2) (run r1 s))"
| "run (Alt r1 r2) s = run r1 s @ run r2 s"

text \<open>The length of the match starting at the head of \<open>s\<close>, if there is one.\<close>

definition exec :: "regex \<Rightarrow> jsstring \<Rightarrow> nat option" where
  "exec r s = (case run r s of [] \<Rightarrow> None | s' # _ \<Rightarrow> Some (length s - length s'))"

text \<open>
  The matches of a global (\<open>g\<close>) pattern, left to right without overlap. \<open>skip\<close> counts
  the code units still covered by the last match; after an empty match the search moves
  on by one unit, as \<open>lastIndex\<close> does.
\<close>

fun match_all :: "regex \<Rightarrow> nat \<Rightarrow> jsstring \<Rightarrow> jsstring list" where
  "match_all r (Suc k) [] = []"
| "match_all r 0 [] = (case exec r [] of None \<Rightarrow> [] | Some n \<Rightarrow> [[]])"
| "match_all r (Suc k) (c # cs) = match_all r k cs"
| "match_all r 0 (c # cs) =
     (case exec r (c # cs) of
        None \<Rightarrow> match_all r 0 cs
      | Some n \<Rightarrow> take n (c # cs) # match_all r (n - 1) cs)"

text \<open>\<open>s.match(r)\<close> for a global \<open>r\<close>: \<open>null\<close> when nothing matches.\<close>

definition js_match :: "jsstring \<Rightarrow> regex \<Rightarrow> jsstring list option" where
  "js_match s r = (case match_all r 0 s of [] \<Rightarrow> None | m # ms \<Rightarrow> Some (m # ms))"

definition one :: "atom \<Rightarrow> regex" where
  "one a = Rep a 1 (Some 1)"

definition opt :: "atom \<Rightarrow> regex" where
  "opt a = Rep a 0 (Some 1)"

definition star :: "atom \<Rightarrow> regex" where
  "star a = Rep a 0 None"

text \<open>
  \<^verbatim>\<open>/(\d{1,2}M?\s*\d{1,2}D?)|(\d{4}-\d{1,2}-\d{1,2})|(\d{1,2}\/\d{1,2})/g\<close>, where \<open>M\<close> is
  the syllable \<open>wol\<close> (month, U+C6D4) and \<open>D\<close> the syllable \<open>il\<close> (day, U+C77C).
\<close>

definition datePattern :: regex where
  "datePattern =
     Alt (Seq (Rep Digit 1 (Some 2)) (Seq (opt (Lit 50900)) (Seq (star Space)
            (Seq (Rep Digit 1 (Some 2)) (opt (Lit 51068))))))
    (Alt (Seq (Rep Digit 4 (Some 4)) (Seq (one (Lit 45)) (Seq (Rep Digit 1 (Some 2))
            (Seq (one (Lit 45)) (Rep Digit 1 (Some 2))))))
         (Seq (Rep Digit 1 (Some 2)) (Seq (one (Lit 47)) (Rep Digit 1 (Some 2)))))"

text \<open>The least number of code units a match of a pattern takes.\<close>

fun min_len :: "regex \<Rightarrow> nat" where
  "min_len (Rep a lo hi) = lo"
| "min_len (Seq r1 r2) = min_len r1 + min_len r2"
| "min_len (Alt r1 r2) = min (min_len r1) (min_len r2)"

text \<open>The atoms of a pattern: every code unit of a match is matched by one of them.\<close>

fun atoms_of :: "regex \<Rightarrow> atom list" where
  "atoms_of (Rep a lo hi) = [a]"
| "atoms_of (Seq r1 r2) = atoms_of r1 @ atoms_of r2"
| "atoms_of (Alt r1 r2) = atoms_of r1 @ atoms_of r2"

section \<open>parseTravel\<close>

record city =
  city_name :: jsstring
  city_lat :: real
  city_lng :: real

text \<open>One entry of the \<open>attractions\<close> table: the spot names and the food names of a city.\<close>

record entry =
  spots :: "jsstring list"
  foods :: "jsstring list"

datatype loc_type = Spot | Food

record location =
  loc_name :: jsstring
  loc_lat :: real
  loc_lng :: real
  loc_time :: jsstring
  loc_city :: jsstring
  loc_type :: loc_type

record day =
  day :: nat
  date :: jsstring
  city :: jsstring
  locations :: "location list"
  distance :: real
  duration :: real

record travel =
  cities :: "city list"
  primaryCity :: "city option"
  itinerary :: "day list"

datatype error = TypeError | Error

text \<open>
  \<open>Math.random()\<close>: the \<open>k\<close>-th call of a run returns \<open>rnd k\<close>, and the functions below
  pass the number of calls made so far along. The contract of \<open>Math.random\<close> is a value
  in \<open>[0, 1)\<close>. Coordinates are reals: floating-point rounding is not modelled, and no
  statement below depends on a coordinate.
\<close>

definition random_ok :: "(nat \<Rightarrow> real) \<Rightarrow> bool" where
  "random_ok rnd = (\<forall>k. 0 \<le> rnd k \<and> rnd k < 1)"

text \<open>
  \<open>arr.sort(() => 0.5 - Math.random())\<close>. The comparator ignores its arguments, so the
  order that comes out is the one the engine's algorithm derives from the random answers;
  ECMAScript leaves it to the implementation for a comparator that is not consistent. The
  functions below follow V8 (\<open>array-sort.tq\<close>) on an array of fewer than 64 elements, where
  its sort is a single run: \<open>CountAndMakeRun\<close> compares the first two elements, takes the
  run as descending when the answer is negative, extends it while the answers keep that
  sign and reverses a descending run; \<open>BinaryInsertionSort\<close> then inserts each remaining
  element at the position a binary search with the comparator finds. (From 64 elements on
  V8 merges several runs, which is not modelled.) The statements of this theory depend on
  the result only as a permutation of the array.
\<close>

text \<open>The answer of the comparator at call \<open>k\<close> of \<open>Math.random\<close>.\<close>

definition comparefn :: "(nat \<Rightarrow> real) \<Rightarrow> nat \<Rightarrow> real" where
  "comparefn rnd k = 0.5 - rnd k"

text \<open>
  The loop of \<open>CountAndMakeRun\<close> over at most \<open>m\<close> further elements: how many of them
  extend the run. The comparison that ends the run is made, and its answer is used up.
\<close>

fun count_run :: "(nat \<Rightarrow> real) \<Rightarrow> bool \<Rightarrow> nat \<Rightarrow> nat \<Rightarrow> nat \<times> nat" where
  "count_run rnd descending 0 k = (0, k)"
| "count_run rnd descending (Suc m) k =
     (if (if descending then comparefn rnd k \<ge> 0 else comparefn rnd k < 0)
      then (0, Suc k)
      else (case count_run rnd descending m (Suc k) of (r, k') \<Rightarrow> (Suc r, k')))"

text \<open>
  The binary search of \<open>BinaryInsertionSort\<close>: a negative answer for the pivot against
  the middle element continues to the left of it, any other answer to the right.
\<close>

function binary_position :: "(nat \<Rightarrow> real) \<Rightarrow> nat \<Rightarrow> nat \<Rightarrow> nat \<Rightarrow> nat \<times> nat" where
  "binary_position rnd left right k =
     (if left < right
      then (if comparefn rnd k < 0
            then binary_position rnd left (left + (right - left) div 2) (Suc k)
            else binary_position rnd (left + (right - left) div 2 + 1) right (Suc k))
      else (left, k))"
  by pat_completeness auto
termination
proof (relation "measure (\<lambda>(rnd, left, right, k). right - left)")
  show "wf (measure (\<lambda>(rnd :: nat \<Rightarrow> real, left :: nat, right :: nat, k :: nat). right - left))"
    by (rule wf_measure)
next
  fix rnd :: "nat \<Rightarrow> real" and left right k :: nat
  assume "left < right"
  then have "(right - left) div 2 < right - left" by simp
  then show "((rnd, left, left + (right - left) div 2, Suc k), rnd, left, right, k)
      \<in> measure (\<lambda>(rnd, left, right, k). right - left)"
    by simp
next
  fix rnd :: "nat \<Rightarrow> real" and left right k :: nat
  assume "left < right"
  then show "((rnd, left + (right - left) div 2 + 1, right, Suc k), rnd, left, right, k)
      \<in> measure (\<lambda>(rnd, left, right, k). right - left)"
    by simp
qed

declare binary_position.simps [simp del]

text \<open>The elements after the run, each inserted into the part already in order.\<close>

fun insert_rest :: "(nat \<Rightarrow> real) \<Rightarrow> 'a list \<Rightarrow> 'a list \<Rightarrow> nat \<Rightarrow> 'a list \<times> nat" where
  "insert_rest rnd placed [] k = (placed, k)"
| "insert_rest rnd placed (pivot # rest) k =
     (case binary_position rnd 0 (length placed) k of
        (left, k') \<Rightarrow> insert_rest rnd (take left placed @ pivot # drop left placed) rest k')"

definition sort_random :: "(nat \<Rightarrow> real) \<Rightarrow> 'a list \<Rightarrow> nat \<Rightarrow> 'a list \<times> nat" where
  "sort_random rnd xs k =
     (if length xs < 2 then (xs, k)
      else (let descending = (comparefn rnd k < 0) in
            case count_run rnd descending (length xs - 2) (Suc k) of
              (n, k1) \<Rightarrow>
                insert_rest rnd
                  (if descending then rev (take (2 + n) xs) else take (2 + n) xs)
                  (drop (2 + n) xs) k1))"

definition getRandomItems :: "(nat \<Rightarrow> real) \<Rightarrow> 'a list \<Rightarrow> int \<Rightarrow> nat \<Rightarrow> 'a list \<times> nat" where
  "getRandomItems rnd arr n k =
     (case sort_random rnd arr k of (shuffled, k') \<Rightarrow> (slice0 shuffled n, k'))"

text \<open>
  The callback of \<open>.map((name, idx) => ...)\<close>: element \<open>idx\<close> draws its latitude, then its
  longitude; \<open>h\<close> is the first hour (9 for spots, 11 for foods) and \<open>suffix\<close> the minutes.
\<close>

definition make_location ::
  "(nat \<Rightarrow> real) \<Rightarrow> city \<Rightarrow> loc_type \<Rightarrow> nat \<Rightarrow> jsstring \<Rightarrow> nat \<Rightarrow> nat \<Rightarrow> jsstring \<Rightarrow> location" where
  "make_location rnd currentCity ty h suffix k idx name =
     \<lparr> loc_name = name,
       loc_lat = city_lat currentCity + (rnd (k + 2 * idx) - 0.5) * 0.02,
       loc_lng = city_lng currentCity + (rnd (k + 2 * idx + 1) - 0.5) * 0.02,
       loc_time = decimal (h + idx * 2) @ suffix,
       loc_city = city_name currentCity,
       loc_type = ty \<rparr>"

definition make_locations ::
  "(nat \<Rightarrow> real) \<Rightarrow> city \<Rightarrow> loc_type \<Rightarrow> nat \<Rightarrow> jsstring \<Rightarrow> jsstring list \<Rightarrow> nat \<Rightarrow> location list \<times> nat" where
  "make_locations rnd currentCity ty h suffix names k =
     (map (\<lambda>(idx, name). make_location rnd currentCity ty h suffix k idx name)
          (zip [0..<length names] names),
      k + 2 * length names)"

text \<open>The five default dates, \<open>7M 25D\<close> to \<open>7M 29D\<close>.\<close>

definition default_dates :: "jsstring list" where
  "default_dates =
     [[55, 50900, 32, 50, 53, 51068], [55, 50900, 32, 50, 54, 51068],
      [55, 50900, 32, 50, 55, 51068], [55, 50900, 32, 50, 56, 51068],
      [55, 50900, 32, 50, 57, 51068]]"

text \<open>The label \<open>{i+1}\<close> followed by \<open>il-cha\<close> (U+C77C U+CC28), used when \<open>dates[i]\<close> is falsy.\<close>

definition day_label :: "nat \<Rightarrow> jsstring" where
  "day_label i = decimal (i + 1) @ [51068, 52264]"

text \<open>\<open>dates[i] || label\<close>: \<open>undefined\<close> and the empty string are falsy.\<close>

definition date_or_label :: "jsstring list \<Rightarrow> nat \<Rightarrow> jsstring" where
  "date_or_label dates i =
     (case js_index dates i of
        None \<Rightarrow> day_label i
      | Some d \<Rightarrow> if d = [] then day_label i else d)"

text \<open>
  The body of the \<open>for\<close> loop for day \<open>i\<close>, from call \<open>k\<close> of \<open>Math.random\<close> on. The
  \<open>attractions\<close> table, which the module imports from \<open>data/attractions.js\<close>, is a
  parameter; a city without an entry gets two empty lists. The list \<open>detectedCities\<close> is
  never empty where the loop runs, so \<open>cityIndex\<close> is an index of it.
\<close>

definition cityData_of :: "(jsstring \<rightharpoonup> entry) \<Rightarrow> city \<Rightarrow> entry" where
  "cityData_of attractions currentCity =
     (case attractions (city_name currentCity) of
        None \<Rightarrow> \<lparr> spots = [], foods = [] \<rparr>
      | Some e \<Rightarrow> e)"

definition make_day ::
  "(jsstring \<rightharpoonup> entry) \<Rightarrow> (nat \<Rightarrow> real) \<Rightarrow> jsstring list \<Rightarrow> city list \<Rightarrow> nat \<Rightarrow> nat \<Rightarrow> day \<times> nat" where
  "make_day attractions rnd dates detectedCities i k =
     (let cityIndex = i mod length detectedCities;
          currentCity = detectedCities ! cityIndex;
          cityData = cityData_of attractions currentCity;
          numSpots = min (int (length (spots cityData))) (2 + \<lfloor>rnd k * 2\<rfloor>);
          numFoods = min (int (length (foods cityData))) (1 + \<lfloor>rnd (k + 1) * 2\<rfloor>)
      in case getRandomItems rnd (spots cityData) numSpots (k + 2) of (spotNames, k1) \<Rightarrow>
         case make_locations rnd currentCity Spot 9 [58, 48, 48] spotNames k1 of (spotLocs, k2) \<Rightarrow>
         case getRandomItems rnd (foods cityData) numFoods k2 of (foodNames, k3) \<Rightarrow>
         case make_locations rnd currentCity Food 11 [58, 51, 48] foodNames k3 of (foodLocs, k4) \<Rightarrow>
         case sort_random rnd (spotLocs @ foodLocs) k4 of (locs, k5) \<Rightarrow>
           (\<lparr> day = i + 1,
              date = date_or_label dates i,
              city = city_name currentCity,
              locations = locs,
              distance = 0,
              duration = 0 \<rparr>, k5))"

text \<open>\<open>for (let i = 0; i < maxDays; i++)\<close>, over the indices \<open>[0..<maxDays]\<close>.\<close>

fun for_days :: "(nat \<Rightarrow> nat \<Rightarrow> day \<times> nat) \<Rightarrow> nat list \<Rightarrow> nat \<Rightarrow> day list \<times> nat" where
  "for_days body [] k = ([], k)"
| "for_days body (i # is) k =
     (case body i k of (d, k') \<Rightarrow>
      case for_days body is k' of (ds, k'') \<Rightarrow> (d # ds, k''))"

text \<open>The cities whose name occurs in the input, in catalog order.\<close>

definition detect_cities :: "city list \<Rightarrow> jsstring \<Rightarrow> city list" where
  "detect_cities catalog input = filter (\<lambda>c. js_includes input (city_name c)) catalog"

text \<open>\<open>input.match(datePattern) || []\<close>.\<close>

definition detect_dates :: "jsstring \<Rightarrow> jsstring list" where
  "detect_dates input = (case js_match input datePattern of None \<Rightarrow> [] | Some ms \<Rightarrow> ms)"

text \<open>The date list in effect: the default list when fewer than two dates were found.\<close>

definition effective_dates :: "jsstring \<Rightarrow> jsstring list" where
  "effective_dates input =
     (if length (detect_dates input) < 2 then default_dates else detect_dates input)"

text \<open>
  The cities the itinerary is made for. The \<open>cities\<close> table is a parameter \<open>catalog\<close>,
  imported like \<open>attractions\<close>. With no city detected the list becomes \<open>[cities[3]]\<close>; when the
  table has no fourth city that element is \<open>undefined\<close>, and reading its \<open>name\<close> for the
  log line throws.
\<close>

definition detectedCities_of :: "city list \<Rightarrow> jsstring \<Rightarrow> error + city list" where
  "detectedCities_of catalog input =
     (if detect_cities catalog input = []
      then (case js_index catalog 3 of None \<Rightarrow> Inl TypeError | Some c \<Rightarrow> Inr [c])
      else Inr (detect_cities catalog input))"

text \<open>The \<open>try\<close> block.\<close>

definition parseTravel_try ::
  "city list \<Rightarrow> (jsstring \<rightharpoonup> entry) \<Rightarrow> (nat \<Rightarrow> real) \<Rightarrow> jsstring \<Rightarrow> error + travel" where
  "parseTravel_try catalog attractions rnd input =
     (case detectedCities_of catalog input of
        Inl e \<Rightarrow> Inl e
      | Inr detectedCities \<Rightarrow>
          (let dates = effective_dates input;
               maxDays = min (length dates) (if length detectedCities > 1 then 5 else 3);
               days = fst (for_days (make_day attractions rnd dates detectedCities) [0..<maxDays] 0)
           in if days = []
              then Inl Error
              else Inr \<lparr> cities = detectedCities,
                         primaryCity = js_index detectedCities 0,
                         itinerary = days \<rparr>))"

text \<open>
  The \<open>catch\<close> block: one day in Gangneung (U+AC15 U+B989) with the two spots
  Gyeongpo Beach and Ojukheon, every coordinate the city's own.
\<close>

definition gangneung :: jsstring where
  "gangneung = [44053, 47497]"

definition fallback :: travel where
  "fallback =
     \<lparr> cities = [\<lparr> city_name = gangneung, city_lat = 37.7519, city_lng = 128.8761 \<rparr>],
       primaryCity = Some \<lparr> city_name = gangneung, city_lat = 37.7519, city_lng = 128.8761 \<rparr>,
       itinerary =
         [\<lparr> day = 1,
            date = [50668, 54665, 32, 49, 51068, 52264],
            city = gangneung,
            locations =
              [\<lparr> loc_name = [44221, 54252, 54644, 48320], loc_lat = 37.7519, loc_lng = 128.8761,
                 loc_time = [48, 57, 58, 48, 48], loc_city = gangneung, loc_type = Spot \<rparr>,
               \<lparr> loc_name = [50724, 51453, 54732], loc_lat = 37.7519, loc_lng = 128.8761,
                 loc_time = [49, 49, 58, 48, 48], loc_city = gangneung, loc_type = Spot \<rparr>],
            distance = 0,
            duration = 0 \<rparr>] \<rparr>"

definition parseTravel ::
  "city list \<Rightarrow> (jsstring \<rightharpoonup> entry) \<Rightarrow> (nat \<Rightarrow> real) \<Rightarrow> jsstring \<Rightarrow> travel" where
  "parseTravel catalog attractions rnd input =
     (case parseTravel_try catalog attractions rnd input of
        Inl e \<Rightarrow> fallback
      | Inr result \<Rightarrow> result)"

text \<open>
  \<open>parseTravel\<close> for any argument and any table. The function is exported and the table
  is imported, so nothing in the module fixes what they hold, and the \<open>try\<close> block reads
  them as they come. The value of \<open>attractions[name]\<close> is falsy (\<open>None\<close> below, as for a
  name the table does not have) and is replaced by two empty lists; or it is an object
  with the arrays \<open>spots\<close> and \<open>foods\<close>, an \<open>Entry\<close>; or it is any other truthy value,
  \<open>Other\<close>, and then reading \<open>cityData.spots.length\<close> (or \<open>cityData.foods.length\<close>) throws
  a \<open>TypeError\<close>.
\<close>

datatype table_value = Entry entry | Other

text \<open>
  The argument: a string, or a value that is not one (\<open>undefined\<close>, \<open>null\<close>, a number, an
  array, ...). Such a value has no method \<open>match\<close>, and all but an array have no method
  \<open>includes\<close> either: the \<open>try\<close> block throws a \<open>TypeError\<close> at the first of the two it
  calls, unless it has thrown one before, at \<open>c.name\<close> for a missing \<open>cities[3]\<close>.
\<close>

datatype argument = Str jsstring | NotString

text \<open>The entries of a table, where the \<open>try\<close> block gets as far as using them.\<close>

definition entries_of :: "(jsstring \<rightharpoonup> table_value) \<Rightarrow> (jsstring \<rightharpoonup> entry)" where
  "entries_of table name = (case table name of Some (Entry e) \<Rightarrow> Some e | _ \<Rightarrow> None)"

text \<open>
  The body of the \<open>for\<close> loop on such a table: it throws where \<open>attractions[currentCity.name]\<close>
  is neither falsy nor an entry, and is \<open>make_day\<close> otherwise.
\<close>

definition make_day_any ::
  "(jsstring \<rightharpoonup> table_value) \<Rightarrow> (nat \<Rightarrow> real) \<Rightarrow> jsstring list \<Rightarrow> city list \<Rightarrow> nat \<Rightarrow> nat
     \<Rightarrow> error + day \<times> nat" where
  "make_day_any table rnd dates detectedCities i k =
     (case table (city_name (detectedCities ! (i mod length detectedCities))) of
        Some Other \<Rightarrow> Inl TypeError
      | _ \<Rightarrow> Inr (make_day (entries_of table) rnd dates detectedCities i k))"

text \<open>The \<open>for\<close> loop, left at the first day that throws.\<close>

fun for_days_any ::
  "(nat \<Rightarrow> nat \<Rightarrow> error + day \<times> nat) \<Rightarrow> nat list \<Rightarrow> nat \<Rightarrow> error + day list \<times> nat" where
  "for_days_any body [] k = Inr ([], k)"
| "for_days_any body (i # is) k =
     (case body i k of
        Inl e \<Rightarrow> Inl e
      | Inr (d, k') \<Rightarrow>
          (case for_days_any body is k' of
             Inl e \<Rightarrow> Inl e
           | Inr (ds, k'') \<Rightarrow> Inr (d # ds, k'')))"

text \<open>The \<open>try\<close> block, with every \<open>throw\<close> of its own and of the operations it uses.\<close>

definition parseTravel_try_any ::
  "city list \<Rightarrow> (jsstring \<rightharpoonup> table_value) \<Rightarrow> (nat \<Rightarrow> real) \<Rightarrow> argument \<Rightarrow> error + travel" where
  "parseTravel_try_any catalog table rnd arg =
     (case arg of
        NotString \<Rightarrow> Inl TypeError
      | Str input \<Rightarrow>
          (case detectedCities_of catalog input of
             Inl e \<Rightarrow> Inl e
           | Inr detectedCities \<Rightarrow>
               (let dates = effective_dates input;
                    maxDays = min (length dates) (if length detectedCities > 1 then 5 else 3)
                in case for_days_any (make_day_any table rnd dates detectedCities) [0..<maxDays] 0 of
                     Inl e \<Rightarrow> Inl e
                   | Inr (days, k) \<Rightarrow>
                       if days = []
                       then Inl Error
                       else Inr \<lparr> cities = detectedCities,
                                  primaryCity = js_index detectedCities 0,
                                  itinerary = days \<rparr>)))"

text \<open>
  \<open>try { ... } catch (error) { ... }\<close>: the handler runs on whatever the block throws,
  and what the handler throws is thrown to the caller.
\<close>

definition try_catch :: "error + 'a \<Rightarrow> (error \<Rightarrow> error + 'a) \<Rightarrow> error + 'a" where
  "try_catch block handler = (case block of Inl e \<Rightarrow> handler e | Inr v \<Rightarrow> Inr v)"

text \<open>
  \<open>parseTravel\<close>: the \<open>try\<close> block under the \<open>catch\<close> block, which logs the error and
  returns the fixed itinerary.
\<close>

definition parseTravel_any ::
  "city list \<Rightarrow> (jsstring \<rightharpoonup> table_value) \<Rightarrow> (nat \<Rightarrow> real) \<Rightarrow> argument \<Rightarrow> error + travel" where
  "parseTravel_any catalog table rnd arg =
     try_catch (parseTravel_try_any catalog table rnd arg) (\<lambda>error. Inr fallback)"

text \<open>
  The table as a plain object (an object literal) with the own properties \<open>own\<close>: a name
  that is not an own property is looked up in \<open>Object.prototype\<close>, whose members
  (\<open>constructor\<close>, \<open>hasOwnProperty\<close>, \<open>isPrototypeOf\<close>, \<open>propertyIsEnumerable\<close>,
  \<open>toLocaleString\<close>, \<open>toString\<close>, \<open>valueOf\<close>, \<open>__proto__\<close> and the four legacy accessors
  \<open>__defineGetter__\<close>, \<open>__defineSetter__\<close>, \<open>__lookupGetter__\<close>, \<open>__lookupSetter__\<close>) are truthy and
  have no \<open>spots\<close>.
\<close>

definition object_prototype :: "jsstring list" where
  "object_prototype =
     [[99, 111, 110, 115, 116, 114, 117, 99, 116, 111, 114],
      [104, 97, 115, 79, 119, 110, 80, 114, 111, 112, 101, 114, 116, 121],
      [105, 115, 80, 114, 111, 116, 111, 116, 121, 112, 101, 79, 102],
      [112, 114, 111, 112, 101, 114, 116, 121, 73, 115, 69, 110, 117, 109, 101, 114, 97, 98, 108, 101],
      [116, 111, 76, 111, 99, 97, 108, 101, 83, 116, 114, 105, 110, 103],
      [116, 111, 83, 116, 114, 105, 110, 103],
      [118, 97, 108, 117, 101, 79, 102],
      [95, 95, 112, 114, 111, 116, 111, 95, 95],
      [95, 95, 100, 101, 102, 105, 110, 101, 71, 101, 116, 116, 101, 114, 95, 95],
      [95, 95, 100, 101, 102, 105, 110, 101, 83, 101, 116, 116, 101, 114, 95, 95],
      [95, 95, 108, 111, 111, 107, 117, 112, 71, 101, 116, 116, 101, 114, 95, 95],
      [95, 95, 108, 111, 111, 107, 117, 112, 83, 101, 116, 116, 101, 114, 95, 95]]"

definition plain_object :: "(jsstring \<rightharpoonup> entry) \<Rightarrow> (jsstring \<rightharpoonup> table_value)" where
  "plain_object own name =
     (case own name of
        Some e \<Rightarrow> Some (Entry e)
      | None \<Rightarrow> if name \<in> set object_prototype then Some Other else None)"

text \<open>The names of the spots and of the foods among the locations of a day.\<close>

definition spot_names :: "day \<Rightarrow> jsstring list" where
  "spot_names d = map loc_name (filter (\<lambda>l. loc_type l = Spot) (locations d))"

definition food_names :: "day \<Rightarrow> jsstring list" where
  "food_names d = map loc_name (filter (\<lambda>l. loc_type l = Food) (locations d))"

section \<open>The map module: markers, routes and the statistics callback\<close>

text \<open>
  \<open>Array.prototype.forEach((x, index) => ...)\<close>, from index \<open>i\<close> on: the callback changes
  the state \<open>s\<close>.
\<close>

fun forEach :: "('a \<Rightarrow> nat \<Rightarrow> 's \<Rightarrow> 's) \<Rightarrow> nat \<Rightarrow> 'a list \<Rightarrow> 's \<Rightarrow> 's" where
  "forEach f i [] s = s"
| "forEach f i (x # xs) s = forEach f (Suc i) xs (f x i s)"

text \<open>
  \<open>arr[i] = v\<close> on an array that may be shorter than \<open>i\<close>: the array grows, and the
  indices in between are holes (\<open>None\<close>).
\<close>

definition set_index :: "'a option list \<Rightarrow> nat \<Rightarrow> 'a \<Rightarrow> 'a option list" where
  "set_index xs i v =
     (if i < length xs then xs[i := Some v]
      else xs @ replicate (i - length xs) None @ [Some v])"

record stat =
  stat_distance :: real
  stat_duration :: real

text \<open>
  A marker keeps its position, whether it carries the food icon, the values its popup
  shows (\<open>day.day\<close>, \<open>day.date\<close> and the location) and the two tags \<open>_dayIndex\<close> and
  \<open>_locIndex\<close>.
\<close>

record marker =
  latLng :: "real \<times> real"
  food_icon :: bool
  popup_day :: nat
  popup_date :: jsstring
  popup_location :: location
  dayIndex :: nat
  locIndex :: nat

text \<open>
  What the module does to the map and to its caller, in the order it does it. Creating
  the routing control of a day with its waypoints and adding it to the map is what issues
  the route request of that day; the answer arrives later, as a \<open>routesfound\<close> event.
\<close>

datatype action =
    SetView "real \<times> real" nat
  | AddTileLayer
  | RemoveMarker nat nat
  | RemoveRoute nat
  | AddMarker nat nat
  | RouteRequest nat "(real \<times> real) list"
  | OnRouteStats "stat option list"
  | FitBounds "(real \<times> real) list"
  | OpenPopup nat nat

text \<open>
  The module's variables \<open>map\<close> (\<open>map_init\<close>: it holds a map), \<open>markers\<close> and
  \<open>routeLayers\<close> (the day of each routing control), the two facts about the page the code
  tests (\<open>leaflet\<close>: \<open>typeof L !== "undefined"\<close>; \<open>routing\<close>: \<open>L.Routing\<close> is there), and
  the \<open>log\<close> of the actions so far.
\<close>

record mapControl =
  leaflet :: bool
  routing :: bool
  map_init :: bool
  markers :: "marker list"
  routeLayers :: "nat list"
  log :: "action list"

text \<open>
  The variables one call of \<open>addMarkersToMap\<close> closes over: \<open>itinerary.length\<close>, whether
  \<open>onRouteStats\<close> is a function, \<open>dayStats\<close>, \<open>routingCount\<close>, and the days whose routing
  control has a \<open>routesfound\<close> handler.
\<close>

record aggregation =
  total :: nat
  callback :: bool
  dayStats :: "stat option list"
  routingCount :: nat
  handlers :: "nat list"

definition emit :: "action list \<Rightarrow> mapControl \<Rightarrow> mapControl" where
  "emit as st = st\<lparr> log := log st @ as \<rparr>"

text \<open>
  \<open>L.map("map")\<close> throws when the container already holds a map; the \<open>catch\<close> block
  then leaves the module's variables as they are.
\<close>

definition initMap :: "mapControl \<Rightarrow> mapControl" where
  "initMap st =
     (if \<not> leaflet st then st
      else if map_init st then st
      else emit [SetView (37.7519, 128.8761) 10, AddTileLayer] (st\<lparr> map_init := True \<rparr>))"

definition clearMap :: "mapControl \<Rightarrow> mapControl" where
  "clearMap st =
     (let st1 = (if leaflet st \<and> map_init st
                 then emit (map (\<lambda>m. RemoveMarker (dayIndex m) (locIndex m)) (markers st)
                            @ map RemoveRoute (routeLayers st)) st
                 else st)
      in st1\<lparr> markers := [], routeLayers := [] \<rparr>)"

text \<open>The body of the inner \<open>forEach\<close>: one marker, pushed on \<open>markers\<close> and \<open>bounds\<close>.\<close>

definition place_marker ::
  "day \<Rightarrow> nat \<Rightarrow> location \<Rightarrow> nat \<Rightarrow> mapControl \<times> (real \<times> real) list \<Rightarrow> mapControl \<times> (real \<times> real) list" where
  "place_marker d dayIdx location locIdx = (\<lambda>(st, bounds).
     (emit [AddMarker dayIdx locIdx]
        (st\<lparr> markers := markers st @
              [\<lparr> latLng = (loc_lat location, loc_lng location),
                 food_icon = (loc_type location = Food),
                 popup_day = day d,
                 popup_date = date d,
                 popup_location = location,
                 dayIndex = dayIdx,
                 locIndex = locIdx \<rparr>] \<rparr>),
      bounds @ [(loc_lat location, loc_lng location)]))"

text \<open>
  What both the \<open>routesfound\<close> handler and the branch without a route do once the
  statistics of a day are known: store them, count the day, and call back when the count
  has reached the number of days.
\<close>

definition settle :: "nat \<Rightarrow> stat \<Rightarrow> mapControl \<times> aggregation \<Rightarrow> mapControl \<times> aggregation" where
  "settle dayIdx s = (\<lambda>(st, agg).
     (let agg1 = agg\<lparr> dayStats := set_index (dayStats agg) dayIdx s,
                      routingCount := routingCount agg + 1 \<rparr>
      in (if routingCount agg1 = total agg1 \<and> callback agg1
          then emit [OnRouteStats (dayStats agg1)] st else st, agg1)))"

text \<open>The statistics of a day without a route: \<open>{ distance: 0, duration: 0 }\<close>.\<close>

definition zero_stat :: stat where
  "zero_stat = \<lparr> stat_distance = 0, stat_duration = 0 \<rparr>"

text \<open>
  The test \<open>window.L && window.L.Routing && day.locations.length > 1\<close>; it runs where
  Leaflet is known to be there.
\<close>

definition routed :: "mapControl \<Rightarrow> day \<Rightarrow> bool" where
  "routed st d = (routing st \<and> length (locations d) > 1)"

text \<open>The body of the outer \<open>forEach\<close>.\<close>

definition process_day ::
  "day \<Rightarrow> nat \<Rightarrow> mapControl \<times> (real \<times> real) list \<times> aggregation
     \<Rightarrow> mapControl \<times> (real \<times> real) list \<times> aggregation" where
  "process_day d dayIdx = (\<lambda>(st, bounds, agg).
     (case forEach (place_marker d dayIdx) 0 (locations d) (st, bounds) of (st1, bounds1) \<Rightarrow>
        if routed st1 d
        then (emit [RouteRequest dayIdx (map (\<lambda>loc. (loc_lat loc, loc_lng loc)) (locations d))]
                (st1\<lparr> routeLayers := routeLayers st1 @ [dayIdx] \<rparr>),
              bounds1,
              agg\<lparr> handlers := handlers agg @ [dayIdx] \<rparr>)
        else (case settle dayIdx zero_stat (st1, agg) of
                (st2, agg2) \<Rightarrow> (st2, bounds1, agg2))))"

text \<open>
  \<open>addMarkersToMap(itinerary, onRouteStats)\<close>; \<open>cb\<close> says whether \<open>onRouteStats\<close> is a
  function. Without Leaflet or without a map the function returns at once, and no closure
  exists (\<open>None\<close>). The Leaflet calls and the callback are taken not to throw, so the
  \<open>catch\<close> block has no branch here.
\<close>

definition addMarkersToMap ::
  "mapControl \<Rightarrow> day list \<Rightarrow> bool \<Rightarrow> mapControl \<times> aggregation option" where
  "addMarkersToMap st itin cb =
     (if \<not> leaflet st \<or> \<not> map_init st then (st, None)
      else
        (case forEach process_day 0 itin
                (clearMap st, [],
                 \<lparr> total = length itin, callback = cb, dayStats = [],
                    routingCount = 0, handlers = [] \<rparr>) of
           (st1, bounds, agg) \<Rightarrow>
             ((if bounds \<noteq> [] then emit [FitBounds bounds] st1 else st1), Some agg)))"

text \<open>\<open>Math.round\<close>, and the statistics the \<open>routesfound\<close> handler computes.\<close>

definition js_round :: "real \<Rightarrow> int" where
  "js_round x = \<lfloor>x + 1 / 2\<rfloor>"

definition route_stat :: "real \<Rightarrow> real \<Rightarrow> stat" where
  "route_stat totalDistance totalTime =
     \<lparr> stat_distance = real_of_int (js_round (totalDistance / 100)) / 10,
       stat_duration = real_of_int (js_round (totalTime / 60)) \<rparr>"

text \<open>
  The event \<open>routesfound\<close> on the routing control of day \<open>dayIdx\<close>, with the summary of
  \<open>e.routes[0]\<close>. A day without a routing control has no handler.
\<close>

definition routesfound :: "nat \<times> real \<times> real \<Rightarrow> mapControl \<times> aggregation \<Rightarrow> mapControl \<times> aggregation" where
  "routesfound = (\<lambda>(dayIdx, totalDistance, totalTime) (st, agg).
     if dayIdx \<in> set (handlers agg)
     then settle dayIdx (route_stat totalDistance totalTime) (st, agg)
     else (st, agg))"

text \<open>
  \<open>highlightMarker(dayIndex, locIndex)\<close>. The first line returns unless
  \<open>markers[dayIndex * 10 + locIndex]\<close> holds a marker; \<open>map.setView\<close> on a missing map
  throws.
\<close>

definition highlightMarker :: "mapControl \<Rightarrow> nat \<Rightarrow> nat \<Rightarrow> error + mapControl" where
  "highlightMarker st dayIdx locIdx =
     (case js_index (markers st) (dayIdx * 10 + locIdx) of
        None \<Rightarrow> Inr st
      | Some u \<Rightarrow>
          (case find (\<lambda>m. dayIndex m = dayIdx \<and> locIndex m = locIdx) (markers st) of
             None \<Rightarrow> Inr st
           | Some m \<Rightarrow>
               if map_init st
               then Inr (emit [OpenPopup (dayIndex m) (locIndex m), SetView (latLng m) 14] st)
               else Inl TypeError))"

text \<open>The actions of a log that call \<open>onRouteStats\<close>, place a marker, or ask for a route.\<close>

fun is_callback :: "action \<Rightarrow> bool" where
  "is_callback (OnRouteStats s) = True"
| "is_callback a = False"

fun is_marker_of :: "nat \<Rightarrow> action \<Rightarrow> bool" where
  "is_marker_of d (AddMarker d' l) = (d' = d)"
| "is_marker_of d a = False"

fun is_marker :: "action \<Rightarrow> bool" where
  "is_marker (AddMarker d l) = True"
| "is_marker a = False"

fun is_request_of :: "nat \<Rightarrow> action \<Rightarrow> bool" where
  "is_request_of d (RouteRequest d' w) = (d' = d)"
| "is_request_of d a = False"

fun is_request :: "action \<Rightarrow> bool" where
  "is_request (RouteRequest d w) = True"
| "is_request a = False"

fun is_fit :: "action \<Rightarrow> bool" where
  "is_fit (FitBounds b) = True"
| "is_fit a = False"

text \<open>\<open>none_after P Q as\<close>: in \<open>as\<close>, no action with \<open>Q\<close> comes after an action with \<open>P\<close>.\<close>

fun none_after :: "('a \<Rightarrow> bool) \<Rightarrow> ('a \<Rightarrow> bool) \<Rightarrow> 'a list \<Rightarrow> bool" where
  "none_after P Q [] = True"
| "none_after P Q (a # as) = ((if P a then list_all (\<lambda>b. \<not> Q b) as else True) \<and> none_after P Q as)"

section \<open>Notions used in the statements about the statistics\<close>

text \<open>
  The actions a call of \<open>addMarkersToMap\<close> and the events after it add to the log of the
  state \<open>st\<close> it started from.
\<close>

definition added :: "mapControl \<Rightarrow> mapControl \<Rightarrow> action list" where
  "added st st' = drop (length (log st)) (log st')"

text \<open>
  The statistics of day \<open>d\<close> given the \<open>routesfound\<close> events \<open>evs\<close> (day, total distance,
  total time): those of the day's event, or zero when the day has none.
\<close>

definition found_stat :: "(nat \<times> real \<times> real) list \<Rightarrow> nat \<Rightarrow> stat" where
  "found_stat evs d =
     (case map_of evs d of
        Some (totalDistance, totalTime) \<Rightarrow> route_stat totalDistance totalTime
      | None \<Rightarrow> zero_stat)"

text \<open>
  The closure's variables when exactly the days in \<open>S\<close> have settled with the statistics
  \<open>val\<close>.
\<close>

definition settled_inv :: "nat set \<Rightarrow> (nat \<Rightarrow> stat) \<Rightarrow> aggregation \<Rightarrow> bool" where
  "settled_inv S val agg =
     (S \<subseteq> {0..<total agg} \<and> routingCount agg = card S
      \<and> length (dayStats agg) \<le> total agg
      \<and> (\<forall>d \<in> S. d < length (dayStats agg) \<and> dayStats agg ! d = Some (val d)))"

section \<open>Example data\<close>

text \<open>
  A catalog in the shape the code expects, with Gangneung at index 3 as the code's
  comment on \<open>cities[3]\<close> says: Seoul, Busan, Jeju-do, Gangneung, Sokcho. Only Gangneung
  has an entry in \<open>ex_attractions\<close>.
\<close>

definition sokcho :: jsstring where
  "sokcho = [49549, 52488]"

definition ex_cities :: "city list" where
  "ex_cities =
     [\<lparr> city_name = [49436, 50872], city_lat = 37.5665, city_lng = 126.978 \<rparr>,
      \<lparr> city_name = [48512, 49328], city_lat = 35.1796, city_lng = 129.0756 \<rparr>,
      \<lparr> city_name = [51228, 51452, 46020], city_lat = 33.4996, city_lng = 126.5312 \<rparr>,
      \<lparr> city_name = gangneung, city_lat = 37.7519, city_lng = 128.8761 \<rparr>,
      \<lparr> city_name = sokcho, city_lat = 38.207, city_lng = 128.5918 \<rparr>]"

definition ex_entry :: entry where
  "ex_entry =
     \<lparr> spots = [[44221, 54252, 54644, 48320], [50724, 51453, 54732], [50504, 47785, 54644, 48320]],
       foods = [[52488, 45817, 49692, 46160, 48512], [52964, 54588]] \<rparr>"

definition ex_attractions :: "jsstring \<rightharpoonup> entry" where
  "ex_attractions = [gangneung \<mapsto> ex_entry]"

text \<open>A run in which every call of \<open>Math.random\<close> returns a quarter.\<close>

definition ex_rnd :: "nat \<Rightarrow> real" where
  "ex_rnd k = 1 / 4"

text \<open>
  The input of the specification's example: Gangneung and Sokcho, then the three dates
  \<open>7M 25D\<close>, \<open>7M 26D\<close>, \<open>7M 27D\<close>.
\<close>

definition ex_input :: jsstring where
  "ex_input =
     [44053, 47497, 44284, 32, 49549, 52488, 32, 55, 50900, 32, 50, 53, 51068, 32,
      55, 50900, 32, 50, 54, 51068, 32, 55, 50900, 32, 50, 55, 51068]"

text \<open>An input with no city name and no digit: \<open>hello\<close>.\<close>

definition ex_plain_input :: jsstring where
  "ex_plain_input = [104, 101, 108, 108, 111]"

definition ex_location :: "jsstring \<Rightarrow> location" where
  "ex_location n =
     \<lparr> loc_name = n, loc_lat = 37.7519, loc_lng = 128.8761,
       loc_time = [48, 57, 58, 48, 48], loc_city = gangneung, loc_type = Spot \<rparr>"

text \<open>A day with two locations.\<close>

definition ex_day :: "nat \<Rightarrow> day" where
  "ex_day n =
     \<lparr> day = n, date = [55, 50900, 32, 50, 53, 51068], city = gangneung,
       locations = [ex_location [44221, 54252, 54644, 48320], ex_location [50724, 51453, 54732]],
       distance = 0, duration = 0 \<rparr>"

text \<open>A page with Leaflet, the routing plugin and an initialised map, nothing drawn yet.\<close>

definition ex_map :: mapControl where
  "ex_map =
     \<lparr> leaflet = True, routing = True, map_init = True,
       markers = [], routeLayers = [], log = [] \<rparr>"

text \<open>The module after drawing an itinerary of two days.\<close>

definition ex_rendered :: mapControl where
  "ex_rendered = fst (addMarkersToMap ex_map [ex_day 1, ex_day 2] True)"

text \<open>
  The closure of that call, and two \<open>routesfound\<close> events arriving out of order: day 1
  (12345 m, 1234 s) before day 0 (6789 m, 600 s).
\<close>

definition ex_closure :: aggregation where
  "ex_closure =
     \<lparr> total = 2, callback = True, dayStats = [], routingCount = 0, handlers = [0, 1] \<rparr>"

definition ex_events :: "(nat \<times> real \<times> real) list" where
  "ex_events = [(1, 12345, 1234), (0, 6789, 600)]"

text \<open>A run in which every call of \<open>Math.random\<close> returns three quarters.\<close>

definition ex_rnd_high :: "nat \<Rightarrow> real" where
  "ex_rnd_high k = 3 / 4"

text \<open>
  A table whose entry for Gangneung names Gyeongpo Beach twice among its three spots and
  the same restaurant twice among its two foods.
\<close>

definition ex_dup_entry :: entry where
  "ex_dup_entry =
     \<lparr> spots = [[44221, 54252, 54644, 48320], [44221, 54252, 54644, 48320], [50724, 51453, 54732]],
       foods = [[52488, 45817, 49692, 46160, 48512], [52488, 45817, 49692, 46160, 48512]] \<rparr>"

definition ex_dup_attractions :: "jsstring \<rightharpoonup> entry" where
  "ex_dup_attractions = [gangneung \<mapsto> ex_dup_entry]"

text \<open>An input with Gangneung and the two dates \<open>8M 1D\<close> and \<open>8M 2D\<close>.\<close>

definition ex_august_input :: jsstring where
  "ex_august_input =
     [44053, 47497, 32, 56, 50900, 32, 49, 51068, 32, 56, 50900, 32, 50, 51068]"

text \<open>The string \<open>constructor\<close>, and a catalog whose only city has that name.\<close>

definition ex_constructor :: jsstring where
  "ex_constructor = [99, 111, 110, 115, 116, 114, 117, 99, 116, 111, 114]"

definition ex_odd_cities :: "city list" where
  "ex_odd_cities = [\<lparr> city_name = ex_constructor, city_lat = 37.5665, city_lng = 126.978 \<rparr>]"

section \<open>The map module without a map\<close>

lemma addMarkersToMap_unavailable:
  "\<not> leaflet st \<or> \<not> map_init st \<Longrightarrow> addMarkersToMap st itin cb = (st, None)"
  by (auto simp add: addMarkersToMap_def)

text \<open>
  C2. The claim: when the map capability is unavailable, \<open>addMarkersToMap\<close> still calls the
  statistics callback once, with an all-zero entry per day. The code returns at its first
  line instead: on a page without Leaflet, for an itinerary of one day and a callback
  that is a function, the module is left as it was, no closure is created and the log
  holds no call of the callback.
\<close>

theorem addMarkersToMap_no_leaflet_no_callback:
  "addMarkersToMap (ex_map\<lparr> leaflet := False \<rparr>) [ex_day 1] True
     = (ex_map\<lparr> leaflet := False \<rparr>, None)
   \<and> filter is_callback (log (fst (addMarkersToMap (ex_map\<lparr> leaflet := False \<rparr>) [ex_day 1] True))) = []"
  by (simp add: addMarkersToMap_def ex_map_def)

theorem addMarkersToMap_no_leaflet_no_callback_witness:
  "snd (addMarkersToMap (ex_map\<lparr> leaflet := False \<rparr>) [ex_day 1] True) = None"
  using addMarkersToMap_no_leaflet_no_callback by simp

section \<open>highlightMarker\<close>

lemma ex_rendered_tags:
  "map (\<lambda>m. (dayIndex m, locIndex m)) (markers ex_rendered) = [(0, 0), (0, 1), (1, 0), (1, 1)]"
  by (simp add: ex_rendered_def addMarkersToMap_def ex_map_def clearMap_def process_day_def
      place_marker_def emit_def ex_day_def settle_def routed_def)

lemma highlightMarker_absent:
  "find (\<lambda>m. dayIndex m = d \<and> locIndex m = l) (markers st) = None
     \<Longrightarrow> highlightMarker st d l = Inr st"
  by (simp add: highlightMarker_def split: option.splits)

lemma highlightMarker_empty: "markers st = [] \<Longrightarrow> highlightMarker st d l = Inr st"
  by (simp add: highlightMarker_def js_index_def)

lemma highlightMarker_found:
  "d * 10 + l < length (markers st) \<Longrightarrow> map_init st
     \<Longrightarrow> find (\<lambda>m. dayIndex m = d \<and> locIndex m = l) (markers st) = Some m
     \<Longrightarrow> highlightMarker st d l = Inr (emit [OpenPopup d l, SetView (latLng m) 14] st)"
  by (auto simp add: highlightMarker_def js_index_def dest: find_Some_iff [THEN iffD1])

text \<open>
  C3. The claim: whenever a marker tagged with exactly \<open>(dayIndex, locIndex)\<close> exists,
  \<open>highlightMarker\<close> opens its popup and recentres the map on it at zoom 14. The code
  first tests \<open>markers[dayIndex * 10 + locIndex]\<close>: after drawing two days of two
  locations each there are four markers, so for the pair \<open>(1, 0)\<close> that test reads index
  10, finds nothing, and the function returns without any effect although the marker
  tagged \<open>(1, 0)\<close> is there.
\<close>

theorem highlightMarker_guard_misses_marker:
  "find (\<lambda>m. dayIndex m = 1 \<and> locIndex m = 0) (markers ex_rendered) \<noteq> None
   \<and> highlightMarker ex_rendered 1 0 = Inr ex_rendered"
  by (simp add: ex_rendered_def addMarkersToMap_def ex_map_def clearMap_def process_day_def
      place_marker_def emit_def ex_day_def settle_def routed_def highlightMarker_def js_index_def)

theorem highlightMarker_guard_misses_marker_witness:
  "highlightMarker ex_rendered 1 0 = Inr ex_rendered"
  by (rule highlightMarker_guard_misses_marker [THEN conjunct2])

section \<open>parseTravel: the shape of the result\<close>

lemma rep_length: "s' \<in> set (rep a lo hi s) \<Longrightarrow> length s' + lo \<le> length s"
proof (induction s arbitrary: lo hi)
  case Nil
  then show ?case by (simp split: if_splits)
next
  case (Cons c cs)
  from Cons.prems consider
    (more) "s' \<in> set (rep a (lo - 1) (map_option (\<lambda>h. h - 1) hi) cs)"
  | (stop) "lo = 0" "s' = c # cs"
    by (auto split: if_splits)
  then show ?case
  proof cases
    case more
    from Cons.IH [OF more] show ?thesis by simp
  next
    case stop
    then show ?thesis by simp
  qed
qed

lemma run_length: "s' \<in> set (run r s) \<Longrightarrow> length s' + min_len r \<le> length s"
proof (induction r arbitrary: s s')
  case (Rep a lo hi)
  then show ?case by (simp add: rep_length)
next
  case (Seq r1 r2)
  from Seq.prems obtain m where m: "m \<in> set (run r1 s)" and s': "s' \<in> set (run r2 m)"
    by auto
  from Seq.IH(1) [OF m] Seq.IH(2) [OF s'] show ?case by simp
next
  case (Alt r1 r2)
  from Alt.prems have "s' \<in> set (run r1 s) \<or> s' \<in> set (run r2 s)" by simp
  then show ?case using Alt.IH by fastforce
qed

lemma exec_bounds: "exec r s = Some n \<Longrightarrow> min_len r \<le> n \<and> n \<le> length s"
proof -
  assume a: "exec r s = Some n"
  then obtain s' rest where r: "run r s = s' # rest" and n: "n = length s - length s'"
    by (auto simp add: exec_def split: list.splits)
  from r have "s' \<in> set (run r s)" by simp
  from run_length [OF this] n show ?thesis by simp
qed

lemma match_all_nonempty:
  "0 < min_len r \<Longrightarrow> m \<in> set (match_all r k s) \<Longrightarrow> m \<noteq> []"
proof (induction r k s rule: match_all.induct)
  case (1 r k)
  then show ?case by simp
next
  case (2 r)
  show ?case
  proof (cases "exec r []")
    case None
    with 2 show ?thesis by simp
  next
    case (Some n)
    from exec_bounds [OF Some] "2.prems" show ?thesis by simp
  qed
next
  case (3 r k c cs)
  then show ?case by simp
next
  case (4 r c cs)
  show ?case
  proof (cases "exec r (c # cs)")
    case None
    with 4 show ?thesis by simp
  next
    case (Some n)
    with exec_bounds [OF Some] "4.prems" have "0 < n" by simp
    with 4 Some show ?thesis by auto
  qed
qed

lemma min_len_datePattern: "min_len datePattern = 2"
  by (simp add: datePattern_def one_def opt_def star_def)

lemma detect_dates_nonempty: "m \<in> set (detect_dates input) \<Longrightarrow> m \<noteq> []"
proof -
  assume "m \<in> set (detect_dates input)"
  then have "m \<in> set (match_all datePattern 0 input)"
    by (auto simp add: detect_dates_def js_match_def split: list.splits)
  then show ?thesis
    using match_all_nonempty [of datePattern m 0 input] by (simp add: min_len_datePattern)
qed

lemma default_dates_nonempty: "m \<in> set default_dates \<Longrightarrow> m \<noteq> []"
  by (auto simp add: default_dates_def)

lemma effective_dates_nonempty: "m \<in> set (effective_dates input) \<Longrightarrow> m \<noteq> []"
  by (auto simp add: effective_dates_def dest: detect_dates_nonempty default_dates_nonempty split: if_splits)

lemma effective_dates_length: "2 \<le> length (effective_dates input)"
  by (simp add: effective_dates_def default_dates_def)

lemma for_days_length: "length (fst (for_days body is k)) = length is"
proof (induction "is" arbitrary: k)
  case Nil
  then show ?case by simp
next
  case (Cons i "is")
  obtain d k1 where b: "body i k = (d, k1)" by (cases "body i k")
  obtain ds k2 where r: "for_days body is k1 = (ds, k2)" by (cases "for_days body is k1")
  from Cons.IH [of k1] r have "length ds = length is" by simp
  with b r show ?case by simp
qed

lemma for_days_nth:
  "j < length is \<Longrightarrow> \<exists>k'. fst (for_days body is k) ! j = fst (body (is ! j) k')"
proof (induction "is" arbitrary: k j)
  case Nil
  then show ?case by simp
next
  case (Cons i "is")
  obtain d k1 where b: "body i k = (d, k1)" by (cases "body i k")
  obtain ds k2 where r: "for_days body is k1 = (ds, k2)" by (cases "for_days body is k1")
  show ?case
  proof (cases j)
    case 0
    with b r have "fst (for_days body (i # is) k) ! j = fst (body ((i # is) ! j) k)" by simp
    then show ?thesis by blast
  next
    case (Suc j')
    with Cons.prems have "j' < length is" by simp
    from Cons.IH [OF this, of k1] obtain k' where "fst (for_days body is k1) ! j' = fst (body (is ! j') k')"
      by blast
    with b r Suc have "fst (for_days body (i # is) k) ! j = fst (body ((i # is) ! j) k')" by simp
    then show ?thesis by blast
  qed
qed

lemma make_day_fields:
  "day (fst (make_day attractions rnd dates cs i k)) = i + 1"
  "date (fst (make_day attractions rnd dates cs i k)) = date_or_label dates i"
  "city (fst (make_day attractions rnd dates cs i k)) = city_name (cs ! (i mod length cs))"
  "distance (fst (make_day attractions rnd dates cs i k)) = 0"
  "duration (fst (make_day attractions rnd dates cs i k)) = 0"
  by (simp_all add: make_day_def Let_def split: prod.splits)

lemma parseTravel_try_Inr:
  assumes "detectedCities_of catalog input = Inr cs"
  shows "parseTravel_try catalog attractions rnd input =
           Inr \<lparr> cities = cs, primaryCity = js_index cs 0,
                 itinerary = fst (for_days (make_day attractions rnd (effective_dates input) cs)
                   [0..<min (length (effective_dates input)) (if 1 < length cs then 5 else 3)] 0) \<rparr>"
proof -
  let ?n = "min (length (effective_dates input)) (if 1 < length cs then 5 else 3)"
  let ?days = "fst (for_days (make_day attractions rnd (effective_dates input) cs) [0..<?n] 0)"
  have n: "2 \<le> ?n" using effective_dates_length [of input] by simp
  have len: "length ?days = ?n" by (simp only: for_days_length length_upt diff_zero)
  have "?days \<noteq> []"
  proof
    assume "?days = []"
    then have "length ?days = 0" by (simp only: list.size)
    with len n show False by linarith
  qed
  with assms show ?thesis by (simp add: parseTravel_try_def Let_def)
qed

lemma parseTravel_try_Inl:
  "detectedCities_of catalog input = Inl e \<Longrightarrow> parseTravel_try catalog attractions rnd input = Inl e"
  by (simp add: parseTravel_try_def)

lemma try_itinerary_length:
  assumes "parseTravel_try catalog attractions rnd input = Inr res"
  shows "\<exists>cs. detectedCities_of catalog input = Inr cs \<and> cs \<noteq> [] \<and> cities res = cs
           \<and> length (itinerary res) = min (length (effective_dates input)) (if 1 < length cs then 5 else 3)"
proof (cases "detectedCities_of catalog input")
  case (Inl e)
  with assms show ?thesis by (simp add: parseTravel_try_Inl)
next
  case (Inr cs)
  then have "cs \<noteq> []" by (auto simp add: detectedCities_of_def split: if_splits option.splits)
  with assms Inr show ?thesis by (auto simp add: parseTravel_try_Inr for_days_length)
qed

lemma try_itinerary_nth:
  assumes "parseTravel_try catalog attractions rnd input = Inr res" and "i < length (itinerary res)"
  shows "\<exists>k. itinerary res ! i = fst (make_day attractions rnd (effective_dates input) (cities res) i k)"
proof (cases "detectedCities_of catalog input")
  case (Inl e)
  with assms show ?thesis by (simp add: parseTravel_try_Inl)
next
  case (Inr cs)
  let ?n = "min (length (effective_dates input)) (if 1 < length cs then 5 else 3)"
  let ?body = "make_day attractions rnd (effective_dates input) cs"
  from assms(1) Inr have res: "itinerary res = fst (for_days ?body [0..<?n] 0)" "cities res = cs"
    by (auto simp add: parseTravel_try_Inr)
  with assms(2) have i: "i < length [0..<?n]" by (simp add: for_days_length)
  from for_days_nth [OF i, of ?body 0] obtain k where
    "fst (for_days ?body [0..<?n] 0) ! i = fst (?body ([0..<?n] ! i) k)" by blast
  moreover from i have "[0..<?n] ! i = i" by simp
  ultimately show ?thesis using res by auto
qed

lemma parseTravel_Inr:
  "parseTravel_try catalog attractions rnd input = Inr res \<Longrightarrow> parseTravel catalog attractions rnd input = res"
  by (simp add: parseTravel_def)

lemma parseTravel_Inl:
  "parseTravel_try catalog attractions rnd input = Inl e \<Longrightarrow> parseTravel catalog attractions rnd input = fallback"
  by (simp add: parseTravel_def)

lemma date_or_label_in_range:
  assumes "i < length dates" and "\<forall>m \<in> set dates. m \<noteq> []"
  shows "date_or_label dates i = dates ! i"
  using assms by (simp add: date_or_label_def js_index_def)

lemma ex_detect_cities:
  "detect_cities ex_cities ex_input =
     [\<lparr> city_name = gangneung, city_lat = 37.7519, city_lng = 128.8761 \<rparr>,
      \<lparr> city_name = sokcho, city_lat = 38.207, city_lng = 128.5918 \<rparr>]"
  by (simp add: detect_cities_def ex_cities_def ex_input_def gangneung_def sokcho_def)

lemma ex_detect_dates:
  "detect_dates ex_input =
     [[55, 50900, 32, 50, 53, 51068], [55, 50900, 32, 50, 54, 51068], [55, 50900, 32, 50, 55, 51068]]"
  by (simp add: detect_dates_def js_match_def exec_def datePattern_def ex_input_def
      one_def opt_def star_def)

text \<open>
  C5. For every input with at least one cataloged city name and at least two date tokens,
  the itinerary has \<open>min(number of detected dates, 5 if more than one city was detected
  else 3)\<close> days, day \<open>i\<close> is in the city \<open>detectedCities[i mod count]\<close>, and the detected
  cities are the cities of the catalog whose name occurs in the input, in catalog order.
\<close>

theorem parseTravel_days_round_robin:
  assumes "detect_cities catalog input \<noteq> []" and "2 \<le> length (detect_dates input)"
  shows "length (itinerary (parseTravel catalog attractions rnd input))
           = min (length (detect_dates input)) (if 1 < length (detect_cities catalog input) then 5 else 3)
       \<and> (\<forall>i < length (itinerary (parseTravel catalog attractions rnd input)).
             city (itinerary (parseTravel catalog attractions rnd input) ! i)
               = city_name (detect_cities catalog input ! (i mod length (detect_cities catalog input))))
       \<and> cities (parseTravel catalog attractions rnd input)
           = filter (\<lambda>c. js_includes input (city_name c)) catalog"
proof -
  let ?cs = "detect_cities catalog input"
  from assms(1) have d: "detectedCities_of catalog input = Inr ?cs"
    by (simp add: detectedCities_of_def)
  from assms(2) have e: "effective_dates input = detect_dates input"
    by (simp add: effective_dates_def)
  obtain res where res: "parseTravel_try catalog attractions rnd input = Inr res"
    using parseTravel_try_Inr [OF d] by blast
  then have p: "parseTravel catalog attractions rnd input = res" by (rule parseTravel_Inr)
  from try_itinerary_length [OF res] d have
    c: "cities res = ?cs" and
    l: "length (itinerary res) = min (length (effective_dates input)) (if 1 < length ?cs then 5 else 3)"
    by auto
  have "city (itinerary res ! i) = city_name (?cs ! (i mod length ?cs))" if "i < length (itinerary res)" for i
  proof -
    from try_itinerary_nth [OF res that] c obtain k where
      "itinerary res ! i = fst (make_day attractions rnd (effective_dates input) ?cs i k)" by auto
    then show ?thesis by (simp add: make_day_fields)
  qed
  with p c l e show ?thesis by (simp add: detect_cities_def)
qed

theorem parseTravel_days_round_robin_witness:
  "detect_cities ex_cities ex_input \<noteq> [] \<and> 2 \<le> length (detect_dates ex_input)
   \<and> length (itinerary (parseTravel ex_cities ex_attractions ex_rnd ex_input)) = 3
   \<and> city (itinerary (parseTravel ex_cities ex_attractions ex_rnd ex_input) ! 0) = gangneung
   \<and> city (itinerary (parseTravel ex_cities ex_attractions ex_rnd ex_input) ! 1) = sokcho
   \<and> city (itinerary (parseTravel ex_cities ex_attractions ex_rnd ex_input) ! 2) = gangneung"
proof -
  let ?it = "itinerary (parseTravel ex_cities ex_attractions ex_rnd ex_input)"
  let ?cs = "detect_cities ex_cities ex_input"
  have h1: "?cs \<noteq> []" by (simp add: ex_detect_cities)
  have h2: "2 \<le> length (detect_dates ex_input)" by (simp add: ex_detect_dates)
  note t = parseTravel_days_round_robin [OF h1 h2, of ex_attractions ex_rnd]
  from t have len: "length ?it = 3" by (simp add: ex_detect_cities ex_detect_dates)
  from t have "\<forall>i < length ?it. city (?it ! i) = city_name (?cs ! (i mod length ?cs))"
    by blast
  moreover have "length ?cs = 2" by (simp add: ex_detect_cities)
  ultimately have c: "city (?it ! i) = city_name (?cs ! (i mod 2))" if "i < 3" for i
    using that len by simp
  have "city (?it ! 0) = gangneung" "city (?it ! 1) = sokcho" "city (?it ! 2) = gangneung"
    using c [of 0] c [of 1] c [of 2] by (simp_all add: ex_detect_cities)
  with h1 h2 len show ?thesis by simp
qed

lemma ex_plain_detect:
  "detect_cities ex_cities ex_plain_input = []" "detect_dates ex_plain_input = []"
  by (simp_all add: detect_cities_def ex_cities_def ex_plain_input_def gangneung_def sokcho_def
      detect_dates_def js_match_def exec_def datePattern_def one_def opt_def star_def)

lemma ex_cities_default: "3 < length ex_cities" "city_name (ex_cities ! 3) = gangneung"
  by (simp_all add: ex_cities_def)

lemma no_city_no_date:
  assumes "detect_cities catalog input = []" and "length (detect_dates input) < 2"
    and "3 < length catalog"
  shows "cities (parseTravel catalog attractions rnd input) = [catalog ! 3]"
    and "length (itinerary (parseTravel catalog attractions rnd input)) = 3"
    and "i < 3 \<Longrightarrow> city (itinerary (parseTravel catalog attractions rnd input) ! i) = city_name (catalog ! 3)"
    and "i < 3 \<Longrightarrow> date (itinerary (parseTravel catalog attractions rnd input) ! i) = default_dates ! i"
proof -
  from assms have d: "detectedCities_of catalog input = Inr [catalog ! 3]"
    by (simp add: detectedCities_of_def js_index_def)
  from assms(2) have e: "effective_dates input = default_dates" by (simp add: effective_dates_def)
  obtain res where res: "parseTravel_try catalog attractions rnd input = Inr res"
    using parseTravel_try_Inr [OF d] by blast
  then have p: "parseTravel catalog attractions rnd input = res" by (rule parseTravel_Inr)
  from try_itinerary_length [OF res] d e have
    c: "cities res = [catalog ! 3]" and l: "length (itinerary res) = 3"
    by (auto simp add: default_dates_def)
  from p c show "cities (parseTravel catalog attractions rnd input) = [catalog ! 3]" by simp
  from p l show "length (itinerary (parseTravel catalog attractions rnd input)) = 3" by simp
  {
    assume i: "i < 3"
    with l have "i < length (itinerary res)" by simp
    from try_itinerary_nth [OF res this] c e obtain k where
      k: "itinerary res ! i = fst (make_day attractions rnd default_dates [catalog ! 3] i k)" by auto
    from k p show "city (itinerary (parseTravel catalog attractions rnd input) ! i) = city_name (catalog ! 3)"
      by (simp add: make_day_fields)
    from i have "i < length default_dates" by (simp add: default_dates_def)
    then have "date_or_label default_dates i = default_dates ! i"
      by (rule date_or_label_in_range) (simp add: default_dates_nonempty)
    with k p show "date (itinerary (parseTravel catalog attractions rnd input) ! i) = default_dates ! i"
      by (simp add: make_day_fields)
  }
qed

text \<open>
  C4, as stated: an input with no cataloged city name and no date token gives an
  itinerary of exactly one day. It fails on the input \<open>hello\<close>: no city, no date, and the
  itinerary has three days (the five default dates, capped at 3 for a single city).
\<close>

theorem parseTravel_default_one_day_counterexample:
  "detect_cities ex_cities ex_plain_input = [] \<and> detect_dates ex_plain_input = []
   \<and> length (itinerary (parseTravel ex_cities ex_attractions ex_rnd ex_plain_input)) = 3"
  by (simp add: ex_plain_detect no_city_no_date(2) ex_cities_default)

text \<open>
  C4, amended: for every input with no cataloged city name and no date token, over a
  catalog whose fourth city (\<open>cities[3]\<close>, the default) is Gangneung, the itinerary has
  exactly three days, each in Gangneung, and day \<open>i\<close> has the \<open>i\<close>-th default date; the
  first day has the first element of the default date list.
\<close>

theorem parseTravel_default_three_days:
  assumes "detect_cities catalog input = []" and "detect_dates input = []"
    and "3 < length catalog" and "city_name (catalog ! 3) = gangneung"
  shows "length (itinerary (parseTravel catalog attractions rnd input)) = 3
       \<and> (\<forall>i < 3. city (itinerary (parseTravel catalog attractions rnd input) ! i) = gangneung
                  \<and> date (itinerary (parseTravel catalog attractions rnd input) ! i) = default_dates ! i)"
  using assms by (simp add: no_city_no_date)

theorem parseTravel_default_three_days_witness:
  "detect_cities ex_cities ex_plain_input = [] \<and> detect_dates ex_plain_input = []
   \<and> 3 < length ex_cities \<and> city_name (ex_cities ! 3) = gangneung
   \<and> city (itinerary (parseTravel ex_cities ex_attractions ex_rnd ex_plain_input) ! 0) = gangneung
   \<and> date (itinerary (parseTravel ex_cities ex_attractions ex_rnd ex_plain_input) ! 0)
       = [55, 50900, 32, 50, 53, 51068]"
proof -
  have h: "detect_cities ex_cities ex_plain_input = []" "detect_dates ex_plain_input = []"
    "3 < length ex_cities" "city_name (ex_cities ! 3) = gangneung"
    by (simp_all add: ex_plain_detect ex_cities_default)
  from parseTravel_default_three_days [OF h, of ex_attractions ex_rnd]
  have "city (itinerary (parseTravel ex_cities ex_attractions ex_rnd ex_plain_input) ! 0) = gangneung
     \<and> date (itinerary (parseTravel ex_cities ex_attractions ex_rnd ex_plain_input) ! 0) = default_dates ! 0"
    by simp
  with h show ?thesis by (simp add: default_dates_def)
qed

section \<open>parseTravel: the fallback\<close>

text \<open>The loop throws exactly when one of its days looks up a value that is not an entry.\<close>

lemma for_days_any_make_day:
  "for_days_any (make_day_any table rnd dates cs) is k =
     (if \<exists>i \<in> set is. table (city_name (cs ! (i mod length cs))) = Some Other
      then Inl TypeError
      else Inr (for_days (make_day (entries_of table) rnd dates cs) is k))"
proof (induction "is" arbitrary: k)
  case Nil
  then show ?case by simp
next
  case (Cons i "is")
  show ?case
  proof (cases "table (city_name (cs ! (i mod length cs))) = Some Other")
    case True
    then show ?thesis by (simp add: make_day_any_def)
  next
    case False
    obtain d k1 where b: "make_day (entries_of table) rnd dates cs i k = (d, k1)"
      by (cases "make_day (entries_of table) rnd dates cs i k")
    from False have m: "make_day_any table rnd dates cs i k = Inr (d, k1)"
      by (simp add: make_day_any_def b split: option.splits table_value.splits)
    obtain ds k2 where r: "for_days (make_day (entries_of table) rnd dates cs) is k1 = (ds, k2)"
      by (cases "for_days (make_day (entries_of table) rnd dates cs) is k1")
    from False m b r Cons.IH [of k1] show ?thesis by simp
  qed
qed

lemma parseTravel_try_any_Str:
  assumes "detectedCities_of catalog input = Inr cs"
  shows "parseTravel_try_any catalog table rnd (Str input) =
     (if \<exists>i < min (length (effective_dates input)) (if 1 < length cs then 5 else 3).
           table (city_name (cs ! (i mod length cs))) = Some Other
      then Inl TypeError
      else parseTravel_try catalog (entries_of table) rnd input)"
proof -
  let ?n = "min (length (effective_dates input)) (if 1 < length cs then 5 else 3)"
  have s: "(\<exists>i \<in> set [0..<?n]. table (city_name (cs ! (i mod length cs))) = Some Other)
      = (\<exists>i < ?n. table (city_name (cs ! (i mod length cs))) = Some Other)"
    by auto
  show ?thesis
  proof (cases "\<exists>i < ?n. table (city_name (cs ! (i mod length cs))) = Some Other")
    case True
    with s have "for_days_any (make_day_any table rnd (effective_dates input) cs) [0..<?n] 0
        = Inl TypeError"
      by (simp only: for_days_any_make_day if_True)
    with assms True show ?thesis by (simp add: parseTravel_try_any_def Let_def)
  next
    case False
    with s have "for_days_any (make_day_any table rnd (effective_dates input) cs) [0..<?n] 0
        = Inr (for_days (make_day (entries_of table) rnd (effective_dates input) cs) [0..<?n] 0)"
      by (simp only: for_days_any_make_day if_False)
    with assms False show ?thesis
      by (simp add: parseTravel_try_any_def parseTravel_try_def Let_def split: prod.splits)
  qed
qed

lemma parseTravel_try_any_throws:
  "(\<exists>e. parseTravel_try_any catalog table rnd arg = Inl e) =
     (case arg of
        NotString \<Rightarrow> True
      | Str input \<Rightarrow>
          (detect_cities catalog input = [] \<and> length catalog \<le> 3)
          \<or> (\<exists>cs. detectedCities_of catalog input = Inr cs
                \<and> (\<exists>i < min (length (effective_dates input)) (if 1 < length cs then 5 else 3).
                      table (city_name (cs ! (i mod length cs))) = Some Other)))"
proof (cases arg)
  case NotString
  then show ?thesis by (simp add: parseTravel_try_any_def)
next
  case (Str input)
  show ?thesis
  proof (cases "detectedCities_of catalog input")
    case (Inl e)
    then have "detect_cities catalog input = [] \<and> length catalog \<le> 3"
      by (auto simp add: detectedCities_of_def js_index_def split: if_splits)
    moreover from Inl have "parseTravel_try_any catalog table rnd (Str input) = Inl e"
      by (simp add: parseTravel_try_any_def)
    ultimately show ?thesis using Str by simp
  next
    case (Inr cs)
    then have n: "\<not> (detect_cities catalog input = [] \<and> length catalog \<le> 3)"
      by (auto simp add: detectedCities_of_def js_index_def split: if_splits)
    obtain res where "parseTravel_try catalog (entries_of table) rnd input = Inr res"
      using parseTravel_try_Inr [OF Inr] by blast
    with parseTravel_try_any_Str [OF Inr, of table rnd] Str Inr n show ?thesis by auto
  qed
qed

lemma entries_of_Entry: "entries_of (map_option Entry \<circ> attractions) = attractions"
  by (rule ext) (simp add: entries_of_def split: option.splits)

lemma parseTravel_any_well_formed:
  "parseTravel_any catalog (map_option Entry \<circ> attractions) rnd (Str input)
     = Inr (parseTravel catalog attractions rnd input)"
proof (cases "detectedCities_of catalog input")
  case (Inl e)
  then have "parseTravel_try_any catalog (map_option Entry \<circ> attractions) rnd (Str input) = Inl e"
    by (simp add: parseTravel_try_any_def)
  moreover from Inl have "parseTravel catalog attractions rnd input = fallback"
    by (simp add: parseTravel_def parseTravel_try_Inl)
  ultimately show ?thesis by (simp add: parseTravel_any_def try_catch_def)
next
  case (Inr cs)
  have "\<not> (\<exists>i < min (length (effective_dates input)) (if 1 < length cs then 5 else 3).
           (map_option Entry \<circ> attractions) (city_name (cs ! (i mod length cs))) = Some Other)"
    by auto
  with parseTravel_try_any_Str [OF Inr, of "map_option Entry \<circ> attractions" rnd]
  have "parseTravel_try_any catalog (map_option Entry \<circ> attractions) rnd (Str input)
      = parseTravel_try catalog attractions rnd input"
    by (simp only: if_False entries_of_Entry)
  then show ?thesis
    by (simp add: parseTravel_any_def try_catch_def parseTravel_def split: sum.splits)
qed

text \<open>
  C7. \<open>parseTravel\<close> never raises to its caller: for every argument (a string or not),
  every \<open>cities\<close> table, every \<open>attractions\<close> table (whatever its values) and every
  sequence of \<open>Math.random\<close> values it returns a result. Whenever the \<open>try\<close> block throws,
  the result is the same fixed itinerary. The block throws exactly when the argument is
  not a string, or no city is detected and the catalog has no \<open>cities[3]\<close>, or one of the
  days to generate is in a city whose table value is truthy without being an entry. The
  fixed itinerary has one day, in Gangneung, with exactly two locations, both spots
  (Gyeongpo Beach and Ojukheon), and distance and duration zero.
\<close>

theorem parseTravel_never_raises:
  "(\<exists>result. parseTravel_any catalog table rnd arg = Inr result)
   \<and> ((\<exists>e. parseTravel_try_any catalog table rnd arg = Inl e) \<longrightarrow>
        parseTravel_any catalog table rnd arg = Inr fallback)
   \<and> ((\<exists>e. parseTravel_try_any catalog table rnd arg = Inl e) \<longleftrightarrow>
        (case arg of
           NotString \<Rightarrow> True
         | Str input \<Rightarrow>
             (detect_cities catalog input = [] \<and> length catalog \<le> 3)
             \<or> (\<exists>cs. detectedCities_of catalog input = Inr cs
                   \<and> (\<exists>i < min (length (effective_dates input)) (if 1 < length cs then 5 else 3).
                         table (city_name (cs ! (i mod length cs))) = Some Other))))
   \<and> length (itinerary fallback) = 1
   \<and> map city (itinerary fallback) = [gangneung]
   \<and> map (\<lambda>d. map loc_type (locations d)) (itinerary fallback) = [[Spot, Spot]]
   \<and> map (\<lambda>d. map loc_name (locations d)) (itinerary fallback)
       = [[[44221, 54252, 54644, 48320], [50724, 51453, 54732]]]
   \<and> map distance (itinerary fallback) = [0]
   \<and> map duration (itinerary fallback) = [0]"
proof -
  have "\<exists>result. parseTravel_any catalog table rnd arg = Inr result"
    by (cases "parseTravel_try_any catalog table rnd arg")
      (simp_all add: parseTravel_any_def try_catch_def)
  moreover have "(\<exists>e. parseTravel_try_any catalog table rnd arg = Inl e) \<longrightarrow>
      parseTravel_any catalog table rnd arg = Inr fallback"
    by (auto simp add: parseTravel_any_def try_catch_def)
  moreover note parseTravel_try_any_throws [of catalog table rnd arg]
  moreover have "length (itinerary fallback) = 1" "map city (itinerary fallback) = [gangneung]"
    "map (\<lambda>d. map loc_type (locations d)) (itinerary fallback) = [[Spot, Spot]]"
    "map (\<lambda>d. map loc_name (locations d)) (itinerary fallback)
       = [[[44221, 54252, 54644, 48320], [50724, 51453, 54732]]]"
    "map distance (itinerary fallback) = [0]" "map duration (itinerary fallback) = [0]"
    by (simp_all add: fallback_def)
  ultimately show ?thesis by (intro conjI)
qed

lemma ex_odd_detect:
  "detectedCities_of ex_odd_cities ex_constructor = Inr ex_odd_cities"
  by (simp add: detectedCities_of_def detect_cities_def ex_odd_cities_def ex_constructor_def)

lemma ex_odd_lookup: "plain_object ex_attractions ex_constructor = Some Other"
  by (simp add: plain_object_def ex_attractions_def gangneung_def ex_constructor_def
      object_prototype_def)

theorem parseTravel_never_raises_witness:
  "parseTravel_any [] (plain_object ex_attractions) ex_rnd (Str ex_input) = Inr fallback
   \<and> parseTravel_any ex_odd_cities (plain_object ex_attractions) ex_rnd (Str ex_constructor)
       = Inr fallback
   \<and> parseTravel_any ex_cities (plain_object ex_attractions) ex_rnd NotString = Inr fallback"
proof -
  note t1 = parseTravel_never_raises [of "[]" "plain_object ex_attractions" ex_rnd "Str ex_input"]
  note t2 = parseTravel_never_raises [of ex_odd_cities "plain_object ex_attractions" ex_rnd
      "Str ex_constructor"]
  note t3 = parseTravel_never_raises [of ex_cities "plain_object ex_attractions" ex_rnd NotString]
  have "detect_cities [] ex_input = [] \<and> length ([] :: city list) \<le> 3"
    by (simp add: detect_cities_def)
  with t1 have r1: "parseTravel_any [] (plain_object ex_attractions) ex_rnd (Str ex_input) = Inr fallback"
    by simp
  have "0 < min (length (effective_dates ex_constructor)) (if 1 < length ex_odd_cities then 5 else 3)"
    using effective_dates_length [of ex_constructor] by (auto simp add: min_def)
  moreover have "plain_object ex_attractions (city_name (ex_odd_cities ! (0 mod length ex_odd_cities)))
      = Some Other"
    by (simp add: ex_odd_cities_def ex_odd_lookup)
  ultimately have "\<exists>cs. detectedCities_of ex_odd_cities ex_constructor = Inr cs
      \<and> (\<exists>i < min (length (effective_dates ex_constructor)) (if 1 < length cs then 5 else 3).
            plain_object ex_attractions (city_name (cs ! (i mod length cs))) = Some Other)"
    using ex_odd_detect by blast
  with t2 have r2: "parseTravel_any ex_odd_cities (plain_object ex_attractions) ex_rnd
      (Str ex_constructor) = Inr fallback"
    by simp
  from t3 have r3: "parseTravel_any ex_cities (plain_object ex_attractions) ex_rnd NotString
      = Inr fallback"
    by simp
  from r1 r2 r3 show ?thesis by (intro conjI)
qed

section \<open>parseTravel: the dates\<close>

text \<open>
  A match of the date pattern consists of digits, white space and the four literals of
  the pattern, so it never contains the syllable \<open>cha\<close> (U+CC28) that ends the substitute
  label; neither does a default date.
\<close>

lemma rep_prefix:
  "s' \<in> set (rep a lo hi s) \<Longrightarrow> \<exists>pre. s = pre @ s' \<and> (\<forall>c \<in> set pre. atom_matches a c)"
proof (induction s arbitrary: lo hi)
  case Nil
  then show ?case by (simp split: if_splits)
next
  case (Cons c cs)
  from Cons.prems consider
    (more) "atom_matches a c" "s' \<in> set (rep a (lo - 1) (map_option (\<lambda>h. h - 1) hi) cs)"
  | (stop) "s' = c # cs"
    by (auto split: if_splits)
  then show ?case
  proof cases
    case more
    from Cons.IH [OF more(2)] obtain pre where "cs = pre @ s'" "\<forall>c \<in> set pre. atom_matches a c"
      by blast
    with more(1) have "c # cs = (c # pre) @ s' \<and> (\<forall>x \<in> set (c # pre). atom_matches a x)"
      by simp
    then show ?thesis by blast
  next
    case stop
    then have "c # cs = [] @ s' \<and> (\<forall>x \<in> set []. atom_matches a x)" by simp
    then show ?thesis by blast
  qed
qed

lemma run_prefix:
  "s' \<in> set (run r s) \<Longrightarrow>
     \<exists>pre. s = pre @ s' \<and> (\<forall>c \<in> set pre. \<exists>a \<in> set (atoms_of r). atom_matches a c)"
proof (induction r arbitrary: s s')
  case (Rep a lo hi)
  then have "s' \<in> set (rep a lo hi s)" by simp
  from rep_prefix [OF this] show ?case by simp
next
  case (Seq r1 r2)
  from Seq.prems obtain m where m: "m \<in> set (run r1 s)" and s': "s' \<in> set (run r2 m)"
    by auto
  from Seq.IH(1) [OF m] obtain p1 where
    p1: "s = p1 @ m" "\<forall>c \<in> set p1. \<exists>a \<in> set (atoms_of r1). atom_matches a c" by blast
  from Seq.IH(2) [OF s'] obtain p2 where
    p2: "m = p2 @ s'" "\<forall>c \<in> set p2. \<exists>a \<in> set (atoms_of r2). atom_matches a c" by blast
  from p1 p2 have "s = (p1 @ p2) @ s'
      \<and> (\<forall>c \<in> set (p1 @ p2). \<exists>a \<in> set (atoms_of (Seq r1 r2)). atom_matches a c)"
    by auto
  then show ?case by blast
next
  case (Alt r1 r2)
  from Alt.prems have "s' \<in> set (run r1 s) \<or> s' \<in> set (run r2 s)" by simp
  then show ?case
  proof
    assume "s' \<in> set (run r1 s)"
    from Alt.IH(1) [OF this] obtain p where
      "s = p @ s'" "\<forall>c \<in> set p. \<exists>a \<in> set (atoms_of r1). atom_matches a c" by blast
    then have "s = p @ s' \<and> (\<forall>c \<in> set p. \<exists>a \<in> set (atoms_of (Alt r1 r2)). atom_matches a c)"
      by auto
    then show ?thesis by blast
  next
    assume "s' \<in> set (run r2 s)"
    from Alt.IH(2) [OF this] obtain p where
      "s = p @ s'" "\<forall>c \<in> set p. \<exists>a \<in> set (atoms_of r2). atom_matches a c" by blast
    then have "s = p @ s' \<and> (\<forall>c \<in> set p. \<exists>a \<in> set (atoms_of (Alt r1 r2)). atom_matches a c)"
      by auto
    then show ?thesis by blast
  qed
qed

lemma exec_prefix:
  assumes "exec r s = Some n" and "c \<in> set (take n s)"
  shows "\<exists>a \<in> set (atoms_of r). atom_matches a c"
proof -
  from assms(1) obtain s' rest where r: "run r s = s' # rest" and n: "n = length s - length s'"
    by (auto simp add: exec_def split: list.splits)
  from r have "s' \<in> set (run r s)" by simp
  from run_prefix [OF this] obtain pre where
    p: "s = pre @ s'" "\<forall>c \<in> set pre. \<exists>a \<in> set (atoms_of r). atom_matches a c" by blast
  from p(1) n have "take n s = pre" by simp
  with assms(2) p(2) show ?thesis by simp
qed

lemma match_all_units:
  "m \<in> set (match_all r k s) \<Longrightarrow> c \<in> set m \<Longrightarrow> \<exists>a \<in> set (atoms_of r). atom_matches a c"
proof (induction r k s rule: match_all.induct)
  case (1 r k)
  then show ?case by simp
next
  case (2 r)
  then show ?case by (simp split: option.splits)
next
  case (3 r k c' cs)
  then show ?case by simp
next
  case (4 r c' cs)
  show ?case
  proof (cases "exec r (c' # cs)")
    case None
    with 4 show ?thesis by simp
  next
    case (Some n)
    with "4.prems"(1) consider (here) "m = take n (c' # cs)" | (later) "m \<in> set (match_all r (n - 1) cs)"
      by auto
    then show ?thesis
    proof cases
      case here
      with "4.prems"(2) have "c \<in> set (take n (c' # cs))" by simp
      with Some show ?thesis by (rule exec_prefix)
    next
      case later
      from "4.IH"(2) [OF Some later "4.prems"(2)] show ?thesis .
    qed
  qed
qed

lemma datePattern_units: "a \<in> set (atoms_of datePattern) \<Longrightarrow> \<not> atom_matches a 52264"
  by (auto simp add: datePattern_def one_def opt_def star_def)

lemma detect_dates_no_label: "m \<in> set (detect_dates input) \<Longrightarrow> m \<noteq> day_label i"
proof
  assume m: "m \<in> set (detect_dates input)" and e: "m = day_label i"
  from m have "m \<in> set (match_all datePattern 0 input)"
    by (auto simp add: detect_dates_def js_match_def split: list.splits)
  moreover from e have "52264 \<in> set m" by (simp add: day_label_def)
  ultimately have "\<exists>a \<in> set (atoms_of datePattern). atom_matches a 52264"
    by (rule match_all_units)
  with datePattern_units show False by blast
qed

lemma default_dates_no_label: "m \<in> set default_dates \<Longrightarrow> m \<noteq> day_label i"
proof
  assume m: "m \<in> set default_dates" and e: "m = day_label i"
  from e have "52264 \<in> set m" by (simp add: day_label_def)
  with m show False by (auto simp add: default_dates_def)
qed

lemma effective_dates_no_label: "m \<in> set (effective_dates input) \<Longrightarrow> m \<noteq> day_label i"
  by (auto simp add: effective_dates_def dest: detect_dates_no_label default_dates_no_label
      split: if_splits)

lemma try_dates:
  assumes "parseTravel_try catalog attractions rnd input = Inr res" and "i < length (itinerary res)"
  shows "i < length (effective_dates input)"
    and "date (itinerary res ! i) = effective_dates input ! i"
proof -
  from try_itinerary_length [OF assms(1)] assms(2)
  show i: "i < length (effective_dates input)" by auto
  from try_itinerary_nth [OF assms] obtain k where
    "itinerary res ! i = fst (make_day attractions rnd (effective_dates input) (cities res) i k)"
    by blast
  then have "date (itinerary res ! i) = date_or_label (effective_dates input) i"
    by (simp add: make_day_fields)
  also from i have "\<dots> = effective_dates input ! i"
    by (rule date_or_label_in_range) (simp add: effective_dates_nonempty)
  finally show "date (itinerary res ! i) = effective_dates input ! i" .
qed

text \<open>
  C10. In an itinerary that is not the fallback: when at least two dates were detected in
  the input there are no more days than detected dates, and the date of day \<open>i\<close> is the
  \<open>i\<close>-th detected date; when fewer than two were detected there are at most five days,
  and the date of day \<open>i\<close> is the \<open>i\<close>-th of the five default dates; and in both cases the
  date of a day is not the empty string and is not the substitute label of that day.
\<close>

theorem parseTravel_dates_in_effect:
  assumes "parseTravel_try catalog attractions rnd input = Inr res"
  shows "(2 \<le> length (detect_dates input) \<longrightarrow>
            length (itinerary res) \<le> length (detect_dates input)
            \<and> (\<forall>i < length (itinerary res). date (itinerary res ! i) = detect_dates input ! i))
       \<and> (length (detect_dates input) < 2 \<longrightarrow>
            length (itinerary res) \<le> 5
            \<and> (\<forall>i < length (itinerary res).
                  date (itinerary res ! i)
                    = [[55, 50900, 32, 50, 53, 51068], [55, 50900, 32, 50, 54, 51068],
                       [55, 50900, 32, 50, 55, 51068], [55, 50900, 32, 50, 56, 51068],
                       [55, 50900, 32, 50, 57, 51068]] ! i))
       \<and> (\<forall>i < length (itinerary res).
             date (itinerary res ! i) \<noteq> [] \<and> date (itinerary res ! i) \<noteq> day_label i)"
proof (intro conjI impI allI)
  assume d: "2 \<le> length (detect_dates input)"
  then have e: "effective_dates input = detect_dates input" by (simp add: effective_dates_def)
  from try_itinerary_length [OF assms] e
  show "length (itinerary res) \<le> length (detect_dates input)" by auto
  fix i assume "i < length (itinerary res)"
  from try_dates(2) [OF assms this] e
  show "date (itinerary res ! i) = detect_dates input ! i" by simp
next
  assume d: "length (detect_dates input) < 2"
  then have e: "effective_dates input = default_dates" by (simp add: effective_dates_def)
  from try_itinerary_length [OF assms] e
  show "length (itinerary res) \<le> 5" by (auto simp add: default_dates_def)
  fix i assume "i < length (itinerary res)"
  from try_dates(2) [OF assms this] e
  show "date (itinerary res ! i)
          = [[55, 50900, 32, 50, 53, 51068], [55, 50900, 32, 50, 54, 51068],
             [55, 50900, 32, 50, 55, 51068], [55, 50900, 32, 50, 56, 51068],
             [55, 50900, 32, 50, 57, 51068]] ! i"
    by (simp add: default_dates_def)
next
  fix i assume i: "i < length (itinerary res)"
  from try_dates [OF assms i] have "date (itinerary res ! i) \<in> set (effective_dates input)"
    by simp
  then show "date (itinerary res ! i) \<noteq> []" by (rule effective_dates_nonempty)
next
  fix i assume i: "i < length (itinerary res)"
  from try_dates [OF assms i] have "date (itinerary res ! i) \<in> set (effective_dates input)"
    by simp
  then show "date (itinerary res ! i) \<noteq> day_label i" by (rule effective_dates_no_label)
qed

lemma ex_august_detect:
  "detect_cities ex_cities ex_august_input
     = [\<lparr> city_name = gangneung, city_lat = 37.7519, city_lng = 128.8761 \<rparr>]"
  "detect_dates ex_august_input = [[56, 50900, 32, 49, 51068], [56, 50900, 32, 50, 51068]]"
  by (simp_all add: detect_cities_def ex_cities_def ex_august_input_def gangneung_def sokcho_def
      detect_dates_def js_match_def exec_def datePattern_def one_def opt_def star_def)

lemma ex_august_try:
  "parseTravel_try ex_cities ex_attractions ex_rnd ex_august_input
     = Inr (parseTravel ex_cities ex_attractions ex_rnd ex_august_input)"
  "length (itinerary (parseTravel ex_cities ex_attractions ex_rnd ex_august_input)) = 2"
proof -
  have d: "detectedCities_of ex_cities ex_august_input = Inr (detect_cities ex_cities ex_august_input)"
    by (simp add: detectedCities_of_def ex_august_detect)
  from parseTravel_try_Inr [OF d, of ex_attractions ex_rnd]
  show t: "parseTravel_try ex_cities ex_attractions ex_rnd ex_august_input
     = Inr (parseTravel ex_cities ex_attractions ex_rnd ex_august_input)"
    by (simp add: parseTravel_def)
  from try_itinerary_length [OF t] d
  show "length (itinerary (parseTravel ex_cities ex_attractions ex_rnd ex_august_input)) = 2"
    by (simp add: effective_dates_def ex_august_detect)
qed

lemma ex_plain_try:
  "parseTravel_try ex_cities ex_attractions ex_rnd ex_plain_input
     = Inr (parseTravel ex_cities ex_attractions ex_rnd ex_plain_input)"
  "length (itinerary (parseTravel ex_cities ex_attractions ex_rnd ex_plain_input)) = 3"
proof -
  have d: "detectedCities_of ex_cities ex_plain_input = Inr [ex_cities ! 3]"
    by (simp add: detectedCities_of_def ex_plain_detect js_index_def ex_cities_default)
  from parseTravel_try_Inr [OF d, of ex_attractions ex_rnd]
  show t: "parseTravel_try ex_cities ex_attractions ex_rnd ex_plain_input
     = Inr (parseTravel ex_cities ex_attractions ex_rnd ex_plain_input)"
    by (simp add: parseTravel_def)
  from try_itinerary_length [OF t] d
  show "length (itinerary (parseTravel ex_cities ex_attractions ex_rnd ex_plain_input)) = 3"
    by (simp add: effective_dates_def ex_plain_detect default_dates_def)
qed

theorem parseTravel_dates_in_effect_witness:
  "parseTravel_try ex_cities ex_attractions ex_rnd ex_august_input
     = Inr (parseTravel ex_cities ex_attractions ex_rnd ex_august_input)
   \<and> detect_dates ex_august_input = [[56, 50900, 32, 49, 51068], [56, 50900, 32, 50, 51068]]
   \<and> length (itinerary (parseTravel ex_cities ex_attractions ex_rnd ex_august_input)) = 2
   \<and> date (itinerary (parseTravel ex_cities ex_attractions ex_rnd ex_august_input) ! 0)
       = [56, 50900, 32, 49, 51068]
   \<and> date (itinerary (parseTravel ex_cities ex_attractions ex_rnd ex_august_input) ! 1)
       = [56, 50900, 32, 50, 51068]
   \<and> parseTravel_try ex_cities ex_attractions ex_rnd ex_plain_input
       = Inr (parseTravel ex_cities ex_attractions ex_rnd ex_plain_input)
   \<and> detect_dates ex_plain_input = []
   \<and> length (itinerary (parseTravel ex_cities ex_attractions ex_rnd ex_plain_input)) = 3
   \<and> date (itinerary (parseTravel ex_cities ex_attractions ex_rnd ex_plain_input) ! 2)
       = [55, 50900, 32, 50, 55, 51068]"
proof -
  let ?a = "parseTravel ex_cities ex_attractions ex_rnd ex_august_input"
  let ?p = "parseTravel ex_cities ex_attractions ex_rnd ex_plain_input"
  note a = parseTravel_dates_in_effect [OF ex_august_try(1)]
  note p = parseTravel_dates_in_effect [OF ex_plain_try(1)]
  have "2 \<le> length (detect_dates ex_august_input)" by (simp add: ex_august_detect)
  with a have "\<forall>i < length (itinerary ?a). date (itinerary ?a ! i) = detect_dates ex_august_input ! i"
    by blast
  then have a': "date (itinerary ?a ! i) = detect_dates ex_august_input ! i" if "i < 2" for i
    using that by (simp add: ex_august_try(2))
  have a0: "date (itinerary ?a ! 0) = [56, 50900, 32, 49, 51068]"
    using a' [of 0] by (simp add: ex_august_detect)
  have a1: "date (itinerary ?a ! 1) = [56, 50900, 32, 50, 51068]"
    using a' [of 1] by (simp add: ex_august_detect)
  have "length (detect_dates ex_plain_input) < 2" by (simp add: ex_plain_detect)
  with p have "\<forall>i < length (itinerary ?p).
      date (itinerary ?p ! i)
        = [[55, 50900, 32, 50, 53, 51068], [55, 50900, 32, 50, 54, 51068],
           [55, 50900, 32, 50, 55, 51068], [55, 50900, 32, 50, 56, 51068],
           [55, 50900, 32, 50, 57, 51068]] ! i"
    by blast
  then have p2: "date (itinerary ?p ! 2) = [55, 50900, 32, 50, 55, 51068]"
    by (simp add: ex_plain_try(2))
  from ex_august_try ex_august_detect(2) a0 a1 ex_plain_try ex_plain_detect(2) p2
  show ?thesis by (intro conjI)
qed

section \<open>parseTravel: the random selection\<close>

lemma insert_rest_mset: "mset (fst (insert_rest rnd s rest k)) = mset s + mset rest"
proof (induction rest arbitrary: s k)
  case Nil
  then show ?case by simp
next
  case (Cons p rest)
  obtain left k' where b: "binary_position rnd 0 (length s) k = (left, k')"
    by (cases "binary_position rnd 0 (length s) k")
  have "mset (take left s) + mset (drop left s) = mset s"
    by (simp only: mset_append [symmetric] append_take_drop_id)
  then have "mset (take left s @ p # drop left s) = add_mset p (mset s)"
    by simp
  with Cons.IH [of "take left s @ p # drop left s" k'] b show ?case by simp
qed

lemma sort_random_mset: "mset (fst (sort_random rnd xs k)) = mset xs"
proof (cases "length xs < 2")
  case True
  then show ?thesis by (simp add: sort_random_def)
next
  case False
  let ?d = "comparefn rnd k < 0"
  obtain n k1 where c: "count_run rnd ?d (length xs - 2) (Suc k) = (n, k1)"
    by (cases "count_run rnd ?d (length xs - 2) (Suc k)")
  let ?run = "take (2 + n) xs"
  have "mset ?run + mset (drop (2 + n) xs) = mset xs"
    by (simp only: mset_append [symmetric] append_take_drop_id)
  then have m: "mset (if ?d then rev ?run else ?run) + mset (drop (2 + n) xs) = mset xs"
    by (cases ?d) (simp_all only: mset_rev if_True if_False)
  from False c have "sort_random rnd xs k
      = insert_rest rnd (if ?d then rev ?run else ?run) (drop (2 + n) xs) k1"
    by (simp only: sort_random_def Let_def if_False prod.case)
  then show ?thesis by (simp only: insert_rest_mset m)
qed

lemma sort_random_length: "length (fst (sort_random rnd xs k)) = length xs"
  using sort_random_mset [of rnd xs k] by (metis size_mset)

lemma mset_take_sub: "mset (take n xs) \<subseteq># mset xs"
proof -
  have "mset xs = mset (take n xs) + mset (drop n xs)"
    by (metis append_take_drop_id mset_append)
  then show ?thesis by simp
qed

lemma getRandomItems_sub: "mset (fst (getRandomItems rnd arr n k)) \<subseteq># mset arr"
proof -
  obtain ys k' where s: "sort_random rnd arr k = (ys, k')" by (cases "sort_random rnd arr k")
  with sort_random_mset [of rnd arr k] have "mset ys = mset arr" by simp
  with s mset_take_sub [of _ ys] show ?thesis
    by (simp add: getRandomItems_def slice0_def)
qed

lemma getRandomItems_length:
  "0 \<le> n \<Longrightarrow> length (fst (getRandomItems rnd arr n k)) = min (length arr) (nat n)"
proof -
  assume n: "0 \<le> n"
  obtain ys k' where s: "sort_random rnd arr k = (ys, k')" by (cases "sort_random rnd arr k")
  with sort_random_length [of rnd arr k] have "length ys = length arr" by simp
  with s n show ?thesis by (simp add: getRandomItems_def slice0_def)
qed

lemma getRandomItems_distinct:
  "distinct arr \<Longrightarrow> distinct (fst (getRandomItems rnd arr n k))"
proof -
  assume d: "distinct arr"
  obtain ys k' where s: "sort_random rnd arr k = (ys, k')" by (cases "sort_random rnd arr k")
  with sort_random_mset [of rnd arr k] have "mset ys = mset arr" by simp
  with d have "distinct ys" by (metis mset_eq_imp_distinct_iff)
  with s show ?thesis by (simp add: getRandomItems_def slice0_def)
qed

lemma map_name_locations:
  "map loc_name (map (\<lambda>(idx, name). make_location rnd c ty h sfx k idx name) zs) = map snd zs"
  by (induction zs) (auto simp add: make_location_def)

lemma make_locations_names:
  "map loc_name (fst (make_locations rnd c ty h sfx names k)) = names"
  by (simp only: make_locations_def fst_conv map_name_locations) simp

lemma make_locations_type:
  "l \<in> set (fst (make_locations rnd c ty h sfx names k)) \<Longrightarrow> loc_type l = ty"
  by (auto simp add: make_locations_def make_location_def)

lemma filter_all: "(\<And>x. x \<in> set xs \<Longrightarrow> P x) \<Longrightarrow> filter P xs = xs"
  by (induction xs) auto

lemma filter_none: "(\<And>x. x \<in> set xs \<Longrightarrow> \<not> P x) \<Longrightarrow> filter P xs = []"
  by (induction xs) auto

lemma mset_map_filter_cong:
  "mset xs = mset ys \<Longrightarrow> mset (map f (filter P xs)) = mset (map f (filter P ys))"
  by (metis mset_filter mset_map)

text \<open>The locations of a generated day, by type.\<close>

lemma make_day_selection:
  fixes attractions rnd dates cs i k
  defines "d \<equiv> fst (make_day attractions rnd dates cs i k)"
    and "e \<equiv> cityData_of attractions (cs ! (i mod length cs))"
  shows "mset (spot_names d)
           = mset (fst (getRandomItems rnd (spots e)
                (min (int (length (spots e))) (2 + \<lfloor>rnd k * 2\<rfloor>)) (k + 2)))"
    and "\<exists>k'. mset (food_names d)
           = mset (fst (getRandomItems rnd (foods e)
                (min (int (length (foods e))) (1 + \<lfloor>rnd (k + 1) * 2\<rfloor>)) k'))"
proof -
  let ?c = "cs ! (i mod length cs)"
  let ?ns = "min (int (length (spots e))) (2 + \<lfloor>rnd k * 2\<rfloor>)"
  let ?nf = "min (int (length (foods e))) (1 + \<lfloor>rnd (k + 1) * 2\<rfloor>)"
  obtain spotNames k1 where g1: "getRandomItems rnd (spots e) ?ns (k + 2) = (spotNames, k1)"
    by (cases "getRandomItems rnd (spots e) ?ns (k + 2)")
  obtain spotLocs k2 where m1: "make_locations rnd ?c Spot 9 [58, 48, 48] spotNames k1 = (spotLocs, k2)"
    by (cases "make_locations rnd ?c Spot 9 [58, 48, 48] spotNames k1")
  obtain foodNames k3 where g2: "getRandomItems rnd (foods e) ?nf k2 = (foodNames, k3)"
    by (cases "getRandomItems rnd (foods e) ?nf k2")
  obtain foodLocs k4 where m2: "make_locations rnd ?c Food 11 [58, 51, 48] foodNames k3 = (foodLocs, k4)"
    by (cases "make_locations rnd ?c Food 11 [58, 51, 48] foodNames k3")
  obtain locs k5 where s: "sort_random rnd (spotLocs @ foodLocs) k4 = (locs, k5)"
    by (cases "sort_random rnd (spotLocs @ foodLocs) k4")
  from g1 m1 g2 m2 s have l: "locations d = locs"
    by (simp add: d_def e_def make_day_def Let_def)
  from s sort_random_mset [of rnd "spotLocs @ foodLocs" k4]
  have p: "mset locs = mset (spotLocs @ foodLocs)" by simp
  have sn: "map loc_name spotLocs = spotNames" using make_locations_names [of rnd ?c Spot 9 "[58, 48, 48]" spotNames k1] m1
    by simp
  have fn: "map loc_name foodLocs = foodNames" using make_locations_names [of rnd ?c Food 11 "[58, 51, 48]" foodNames k3] m2
    by simp
  have st: "\<And>x. x \<in> set spotLocs \<Longrightarrow> loc_type x = Spot"
    using make_locations_type [of _ rnd ?c Spot 9 "[58, 48, 48]" spotNames k1] m1 by simp
  have ft: "\<And>x. x \<in> set foodLocs \<Longrightarrow> loc_type x = Food"
    using make_locations_type [of _ rnd ?c Food 11 "[58, 51, 48]" foodNames k3] m2 by simp
  have f1: "filter (\<lambda>l. loc_type l = Spot) (spotLocs @ foodLocs) = spotLocs"
    using st ft by (simp add: filter_all filter_none)
  have "mset (spot_names d) = mset (map loc_name (filter (\<lambda>l. loc_type l = Spot) locs))"
    by (simp only: spot_names_def l)
  also have "\<dots> = mset (map loc_name (filter (\<lambda>l. loc_type l = Spot) (spotLocs @ foodLocs)))"
    by (rule mset_map_filter_cong [OF p])
  also have "\<dots> = mset spotNames" by (simp only: f1 sn)
  also have "spotNames = fst (getRandomItems rnd (spots e) ?ns (k + 2))"
    by (simp only: g1 fst_conv)
  finally show "mset (spot_names d) = mset (fst (getRandomItems rnd (spots e) ?ns (k + 2)))" .
  have f2: "filter (\<lambda>l. loc_type l = Food) (spotLocs @ foodLocs) = foodLocs"
    using st ft by (simp add: filter_all filter_none)
  have "mset (food_names d) = mset (map loc_name (filter (\<lambda>l. loc_type l = Food) locs))"
    by (simp only: food_names_def l)
  also have "\<dots> = mset (map loc_name (filter (\<lambda>l. loc_type l = Food) (spotLocs @ foodLocs)))"
    by (rule mset_map_filter_cong [OF p])
  also have "\<dots> = mset foodNames" by (simp only: f2 fn)
  also have "foodNames = fst (getRandomItems rnd (foods e) ?nf k2)"
    by (simp only: g2 fst_conv)
  finally have "mset (food_names d) = mset (fst (getRandomItems rnd (foods e) ?nf k2))" .
  then show "\<exists>k'. mset (food_names d) = mset (fst (getRandomItems rnd (foods e) ?nf k'))"
    by blast
qed

lemma random_floor: "random_ok rnd \<Longrightarrow> \<lfloor>rnd k * 2\<rfloor> = 0 \<or> \<lfloor>rnd k * 2\<rfloor> = 1"
proof -
  assume "random_ok rnd"
  then have "0 \<le> rnd k" "rnd k < 1" by (simp_all add: random_ok_def)
  then have "0 \<le> \<lfloor>rnd k * 2\<rfloor>" "\<lfloor>rnd k * 2\<rfloor> < 2" by (simp_all add: floor_less_iff)
  then show ?thesis by linarith
qed

lemma locations_split: "length (locations d) = length (spot_names d) + length (food_names d)"
proof -
  have "filter (\<lambda>l. loc_type l = Food) (locations d) = filter (\<lambda>l. \<not> loc_type l = Spot) (locations d)"
    by (rule filter_cong) (auto intro: loc_type.exhaust)
  then have "length (food_names d) = length (filter (\<lambda>l. \<not> loc_type l = Spot) (locations d))"
    by (simp add: food_names_def)
  moreover have "length (spot_names d) = length (filter (\<lambda>l. loc_type l = Spot) (locations d))"
    by (simp add: spot_names_def)
  ultimately show ?thesis
    using sum_length_filter_compl [of "\<lambda>l. loc_type l = Spot" "locations d"] by simp
qed

lemma make_day_spots:
  fixes attractions rnd dates cs i k
  assumes "random_ok rnd"
  defines "d \<equiv> fst (make_day attractions rnd dates cs i k)"
    and "e \<equiv> cityData_of attractions (cs ! (i mod length cs))"
  shows "min (length (spots e)) 2 \<le> length (spot_names d)"
    and "length (spot_names d) \<le> min (length (spots e)) 3"
    and "mset (spot_names d) \<subseteq># mset (spots e)"
    and "distinct (spots e) \<Longrightarrow> distinct (spot_names d)"
proof -
  let ?n = "min (int (length (spots e))) (2 + \<lfloor>rnd k * 2\<rfloor>)"
  let ?sel = "fst (getRandomItems rnd (spots e) ?n (k + 2))"
  have m: "mset (spot_names d) = mset ?sel"
    unfolding d_def e_def by (rule make_day_selection(1))
  from random_floor [OF assms(1), of k] have f: "\<lfloor>rnd k * 2\<rfloor> = 0 \<or> \<lfloor>rnd k * 2\<rfloor> = 1" .
  then have "0 \<le> ?n" by auto
  then have "length ?sel = min (length (spots e)) (nat ?n)" by (rule getRandomItems_length)
  moreover from m have "length (spot_names d) = length ?sel" by (metis size_mset)
  ultimately have l: "length (spot_names d) = min (length (spots e)) (nat ?n)" by simp
  from f l show "min (length (spots e)) 2 \<le> length (spot_names d)" by auto
  from f l show "length (spot_names d) \<le> min (length (spots e)) 3" by auto
  from m getRandomItems_sub [of rnd "spots e" ?n "k + 2"]
  show "mset (spot_names d) \<subseteq># mset (spots e)" by simp
  assume "distinct (spots e)"
  then have "distinct ?sel" by (rule getRandomItems_distinct)
  with m show "distinct (spot_names d)" by (metis mset_eq_imp_distinct_iff)
qed

lemma make_day_foods:
  fixes attractions rnd dates cs i k
  assumes "random_ok rnd"
  defines "d \<equiv> fst (make_day attractions rnd dates cs i k)"
    and "e \<equiv> cityData_of attractions (cs ! (i mod length cs))"
  shows "min (length (foods e)) 1 \<le> length (food_names d)"
    and "length (food_names d) \<le> min (length (foods e)) 2"
    and "mset (food_names d) \<subseteq># mset (foods e)"
    and "distinct (foods e) \<Longrightarrow> distinct (food_names d)"
proof -
  let ?n = "min (int (length (foods e))) (1 + \<lfloor>rnd (k + 1) * 2\<rfloor>)"
  obtain k' where m: "mset (food_names d) = mset (fst (getRandomItems rnd (foods e) ?n k'))"
    unfolding d_def e_def using make_day_selection(2) by blast
  let ?sel = "fst (getRandomItems rnd (foods e) ?n k')"
  from random_floor [OF assms(1), of "k + 1"]
  have f: "\<lfloor>rnd (k + 1) * 2\<rfloor> = 0 \<or> \<lfloor>rnd (k + 1) * 2\<rfloor> = 1" .
  then have "0 \<le> ?n" by auto
  then have "length ?sel = min (length (foods e)) (nat ?n)" by (rule getRandomItems_length)
  moreover from m have "length (food_names d) = length ?sel" by (metis size_mset)
  ultimately have l: "length (food_names d) = min (length (foods e)) (nat ?n)" by simp
  from f l show "min (length (foods e)) 1 \<le> length (food_names d)" by auto
  from f l show "length (food_names d) \<le> min (length (foods e)) 2" by auto
  from m getRandomItems_sub [of rnd "foods e" ?n k']
  show "mset (food_names d) \<subseteq># mset (foods e)" by simp
  assume "distinct (foods e)"
  then have "distinct ?sel" by (rule getRandomItems_distinct)
  with m show "distinct (food_names d)" by (metis mset_eq_imp_distinct_iff)
qed

text \<open>A day of the \<open>try\<close> block's result is a run of the loop body for a detected city.\<close>

lemma try_day:
  assumes "parseTravel_try catalog attractions rnd input = Inr res" and "d \<in> set (itinerary res)"
  obtains i k where "d = fst (make_day attractions rnd (effective_dates input) (cities res) i k)"
    and "city d = city_name (cities res ! (i mod length (cities res)))"
proof -
  from assms(2) obtain i where i: "i < length (itinerary res)" and d: "d = itinerary res ! i"
    by (auto simp add: in_set_conv_nth)
  from try_itinerary_nth [OF assms(1) i] d obtain k where
    k: "d = fst (make_day attractions rnd (effective_dates input) (cities res) i k)" by auto
  then have "city d = city_name (cities res ! (i mod length (cities res)))"
    by (simp add: make_day_fields)
  with k that show ?thesis by blast
qed

text \<open>The exact counts, and a selection of as many names as the catalog list has.\<close>

lemma make_day_counts:
  fixes attractions rnd dates cs i k
  assumes "0 \<le> rnd k" and "0 \<le> rnd (k + 1)"
  defines "d \<equiv> fst (make_day attractions rnd dates cs i k)"
    and "e \<equiv> cityData_of attractions (cs ! (i mod length cs))"
  shows "length (spot_names d) = min (length (spots e)) (nat (2 + \<lfloor>rnd k * 2\<rfloor>))"
    and "length (food_names d) = min (length (foods e)) (nat (1 + \<lfloor>rnd (k + 1) * 2\<rfloor>))"
proof -
  let ?n = "min (int (length (spots e))) (2 + \<lfloor>rnd k * 2\<rfloor>)"
  let ?sel = "fst (getRandomItems rnd (spots e) ?n (k + 2))"
  have m: "mset (spot_names d) = mset ?sel"
    unfolding d_def e_def by (rule make_day_selection(1))
  from assms(1) have f: "0 \<le> \<lfloor>rnd k * 2\<rfloor>" by simp
  then have "0 \<le> ?n" by simp
  then have "length ?sel = min (length (spots e)) (nat ?n)" by (rule getRandomItems_length)
  moreover from m have "length (spot_names d) = length ?sel" by (metis size_mset)
  ultimately have "length (spot_names d) = min (length (spots e)) (nat ?n)" by simp
  with f show "length (spot_names d) = min (length (spots e)) (nat (2 + \<lfloor>rnd k * 2\<rfloor>))"
    by linarith
  let ?m = "min (int (length (foods e))) (1 + \<lfloor>rnd (k + 1) * 2\<rfloor>)"
  obtain k' where m': "mset (food_names d) = mset (fst (getRandomItems rnd (foods e) ?m k'))"
    unfolding d_def e_def using make_day_selection(2) by blast
  let ?sel' = "fst (getRandomItems rnd (foods e) ?m k')"
  from assms(2) have f': "0 \<le> \<lfloor>rnd (k + 1) * 2\<rfloor>" by simp
  then have "0 \<le> ?m" by simp
  then have "length ?sel' = min (length (foods e)) (nat ?m)" by (rule getRandomItems_length)
  moreover from m' have "length (food_names d) = length ?sel'" by (metis size_mset)
  ultimately have "length (food_names d) = min (length (foods e)) (nat ?m)" by simp
  with f' show "length (food_names d) = min (length (foods e)) (nat (1 + \<lfloor>rnd (k + 1) * 2\<rfloor>))"
    by linarith
qed

lemma sub_mset_same_size: "A \<subseteq># B \<Longrightarrow> size A = size B \<Longrightarrow> A = B"
  using mset_subset_size [of A B] by (auto simp add: subset_mset.less_le)

lemma ex_dup_gangneung: "ex_dup_attractions gangneung = Some ex_dup_entry"
  by (simp add: ex_dup_attractions_def)

lemma ex_high_floor: "\<lfloor>ex_rnd_high k * 2\<rfloor> = 1"
  by (simp add: ex_rnd_high_def)

lemma ex_dup_try:
  "parseTravel_try ex_cities ex_dup_attractions ex_rnd_high ex_input
     = Inr (parseTravel ex_cities ex_dup_attractions ex_rnd_high ex_input)"
proof -
  have "detectedCities_of ex_cities ex_input = Inr (detect_cities ex_cities ex_input)"
    by (simp add: detectedCities_of_def ex_detect_cities)
  from parseTravel_try_Inr [OF this, of ex_dup_attractions ex_rnd_high] show ?thesis
    by (simp add: parseTravel_def)
qed

lemma ex_dup_first_day:
  "mset (spot_names (itinerary (parseTravel ex_cities ex_dup_attractions ex_rnd_high ex_input) ! 0))
     = mset (spots ex_dup_entry)"
  "mset (food_names (itinerary (parseTravel ex_cities ex_dup_attractions ex_rnd_high ex_input) ! 0))
     = mset (foods ex_dup_entry)"
  "city (itinerary (parseTravel ex_cities ex_dup_attractions ex_rnd_high ex_input) ! 0) = gangneung"
proof -
  let ?res = "parseTravel ex_cities ex_dup_attractions ex_rnd_high ex_input"
  from try_itinerary_length [OF ex_dup_try] have l: "0 < length (itinerary ?res)"
    and c: "cities ?res = detect_cities ex_cities ex_input"
    using effective_dates_length [of ex_input] by (auto simp add: detectedCities_of_def ex_detect_cities)
  from try_itinerary_nth [OF ex_dup_try l] obtain k where
    k: "itinerary ?res ! 0 = fst (make_day ex_dup_attractions ex_rnd_high (effective_dates ex_input) (cities ?res) 0 k)"
    by blast
  then show g: "city (itinerary ?res ! 0) = gangneung"
    by (simp add: make_day_fields c ex_detect_cities)
  have cn: "city_name (cities ?res ! (0 mod length (cities ?res))) = gangneung"
    by (simp add: c ex_detect_cities)
  have e: "cityData_of ex_dup_attractions (cities ?res ! (0 mod length (cities ?res))) = ex_dup_entry"
    by (simp only: cityData_of_def cn ex_dup_gangneung option.case)
  have ok: "random_ok ex_rnd_high" by (simp add: random_ok_def ex_rnd_high_def)
  have nn: "0 \<le> ex_rnd_high k" "0 \<le> ex_rnd_high (k + 1)" by (simp_all add: ex_rnd_high_def)
  note n = make_day_counts [OF nn, where attractions = ex_dup_attractions
      and dates = "effective_dates ex_input" and cs = "cities ?res" and i = 0,
      folded k, unfolded e ex_high_floor]
  note s = make_day_spots(3) [OF ok, where attractions = ex_dup_attractions
      and dates = "effective_dates ex_input" and cs = "cities ?res" and i = 0 and k = k,
      folded k, unfolded e]
  note f = make_day_foods(3) [OF ok, where attractions = ex_dup_attractions
      and dates = "effective_dates ex_input" and cs = "cities ?res" and i = 0 and k = k,
      folded k, unfolded e]
  from n(1) have "size (mset (spot_names (itinerary ?res ! 0))) = size (mset (spots ex_dup_entry))"
    by (simp add: ex_dup_entry_def)
  with s show "mset (spot_names (itinerary ?res ! 0)) = mset (spots ex_dup_entry)"
    by (rule sub_mset_same_size)
  from n(2) have "size (mset (food_names (itinerary ?res ! 0))) = size (mset (foods ex_dup_entry))"
    by (simp add: ex_dup_entry_def)
  with f show "mset (food_names (itinerary ?res ! 0)) = mset (foods ex_dup_entry)"
    by (rule sub_mset_same_size)
qed

text \<open>
  C8, as stated: the selected spot names are pairwise distinct, and so are the selected
  food names, for every catalog entry. It fails for an entry that names a place twice:
  with the spots \<open>[A, A, C]\<close> and the foods \<open>[B, B]\<close> for Gangneung and every call of
  \<open>Math.random\<close> returning three quarters, the first day (in Gangneung) selects three spots
  and two foods, that is every element of both lists, and \<open>A\<close> and \<open>B\<close> are selected twice.
\<close>

theorem parseTravel_repeated_name_counterexample:
  "ex_dup_attractions
       (city (itinerary (parseTravel ex_cities ex_dup_attractions ex_rnd_high ex_input) ! 0))
     = Some ex_dup_entry
   \<and> mset (spot_names (itinerary (parseTravel ex_cities ex_dup_attractions ex_rnd_high ex_input) ! 0))
       = mset [[44221, 54252, 54644, 48320], [44221, 54252, 54644, 48320], [50724, 51453, 54732]]
   \<and> \<not> distinct (spot_names (itinerary (parseTravel ex_cities ex_dup_attractions ex_rnd_high ex_input) ! 0))
   \<and> mset (food_names (itinerary (parseTravel ex_cities ex_dup_attractions ex_rnd_high ex_input) ! 0))
       = mset [[52488, 45817, 49692, 46160, 48512], [52488, 45817, 49692, 46160, 48512]]
   \<and> \<not> distinct (food_names (itinerary (parseTravel ex_cities ex_dup_attractions ex_rnd_high ex_input) ! 0))"
proof -
  let ?d = "itinerary (parseTravel ex_cities ex_dup_attractions ex_rnd_high ex_input) ! 0"
  have a: "ex_dup_attractions (city ?d) = Some ex_dup_entry"
    by (simp only: ex_dup_first_day(3) ex_dup_gangneung)
  have "\<not> distinct (spots ex_dup_entry)" by (simp add: ex_dup_entry_def)
  with ex_dup_first_day(1) have ns: "\<not> distinct (spot_names ?d)"
    by (metis mset_eq_imp_distinct_iff)
  have "\<not> distinct (foods ex_dup_entry)" by (simp add: ex_dup_entry_def)
  with ex_dup_first_day(2) have nf: "\<not> distinct (food_names ?d)"
    by (metis mset_eq_imp_distinct_iff)
  have vs: "spots ex_dup_entry
      = [[44221, 54252, 54644, 48320], [44221, 54252, 54644, 48320], [50724, 51453, 54732]]"
    and vf: "foods ex_dup_entry
      = [[52488, 45817, 49692, 46160, 48512], [52488, 45817, 49692, 46160, 48512]]"
    by (simp_all add: ex_dup_entry_def)
  from ex_dup_first_day(1) vs have ms: "mset (spot_names ?d)
      = mset [[44221, 54252, 54644, 48320], [44221, 54252, 54644, 48320], [50724, 51453, 54732]]"
    by (simp only:)
  from ex_dup_first_day(2) vf have mf: "mset (food_names ?d)
      = mset [[52488, 45817, 49692, 46160, 48512], [52488, 45817, 49692, 46160, 48512]]"
    by (simp only:)
  from a ms ns mf nf show ?thesis by (intro conjI)
qed

text \<open>
  C8, amended. For every day the \<open>try\<close> block generates for a city with catalog entry
  \<open>{spots, foods}\<close>, under the contract of \<open>Math.random\<close>: the number of selected spots
  lies between \<open>min(len(spots), 2)\<close> and \<open>min(len(spots), 3)\<close>, the number of selected
  foods between \<open>min(len(foods), 1)\<close> and \<open>min(len(foods), 2)\<close>; the selection is
  without replacement (the selected names are a sub-multiset of the catalog list), so the
  selected spot names, and the selected food names, are pairwise distinct when the
  catalog list names no place twice.
\<close>

theorem parseTravel_selection:
  assumes "random_ok rnd"
    and "parseTravel_try catalog attractions rnd input = Inr res"
    and "d \<in> set (itinerary res)"
    and "attractions (city d) = Some e"
  shows "min (length (spots e)) 2 \<le> length (spot_names d)
       \<and> length (spot_names d) \<le> min (length (spots e)) 3
       \<and> min (length (foods e)) 1 \<le> length (food_names d)
       \<and> length (food_names d) \<le> min (length (foods e)) 2
       \<and> mset (spot_names d) \<subseteq># mset (spots e)
       \<and> mset (food_names d) \<subseteq># mset (foods e)
       \<and> (distinct (spots e) \<longrightarrow> distinct (spot_names d))
       \<and> (distinct (foods e) \<longrightarrow> distinct (food_names d))"
proof -
  from try_day [OF assms(2,3)] obtain i k where
    d: "d = fst (make_day attractions rnd (effective_dates input) (cities res) i k)"
    and c: "city d = city_name (cities res ! (i mod length (cities res)))" by blast
  from c assms(4) have e: "cityData_of attractions (cities res ! (i mod length (cities res))) = e"
    by (simp add: cityData_of_def)
  note s = make_day_spots [OF assms(1), where attractions = attractions
      and dates = "effective_dates input" and cs = "cities res" and i = i and k = k,
      folded d, unfolded e]
  note f = make_day_foods [OF assms(1), where attractions = attractions
      and dates = "effective_dates input" and cs = "cities res" and i = i and k = k,
      folded d, unfolded e]
  from s f show ?thesis by blast
qed

lemma ex_attractions_gangneung: "ex_attractions gangneung = Some ex_entry"
  by (simp add: ex_attractions_def)

lemma ex_random_ok: "random_ok ex_rnd"
  by (simp add: random_ok_def ex_rnd_def)

lemma ex_try:
  "parseTravel_try ex_cities ex_attractions ex_rnd ex_input
     = Inr (parseTravel ex_cities ex_attractions ex_rnd ex_input)"
proof -
  have "detectedCities_of ex_cities ex_input = Inr (detect_cities ex_cities ex_input)"
    by (simp add: detectedCities_of_def ex_detect_cities)
  from parseTravel_try_Inr [OF this, of ex_attractions ex_rnd] show ?thesis
    by (simp add: parseTravel_def)
qed

lemma ex_first_day:
  "itinerary (parseTravel ex_cities ex_attractions ex_rnd ex_input) ! 0
     \<in> set (itinerary (parseTravel ex_cities ex_attractions ex_rnd ex_input))"
  "city (itinerary (parseTravel ex_cities ex_attractions ex_rnd ex_input) ! 0) = gangneung"
proof -
  let ?res = "parseTravel ex_cities ex_attractions ex_rnd ex_input"
  from try_itinerary_length [OF ex_try] have l: "0 < length (itinerary ?res)"
    and c: "cities ?res = detect_cities ex_cities ex_input"
    using effective_dates_length [of ex_input] by (auto simp add: detectedCities_of_def ex_detect_cities)
  from l show "itinerary ?res ! 0 \<in> set (itinerary ?res)" by simp
  from try_itinerary_nth [OF ex_try l] obtain k where
    "itinerary ?res ! 0 = fst (make_day ex_attractions ex_rnd (effective_dates ex_input) (cities ?res) 0 k)"
    by blast
  then show "city (itinerary ?res ! 0) = gangneung"
    by (simp add: make_day_fields c ex_detect_cities)
qed

theorem parseTravel_selection_witness:
  "random_ok ex_rnd
   \<and> parseTravel_try ex_cities ex_attractions ex_rnd ex_input
       = Inr (parseTravel ex_cities ex_attractions ex_rnd ex_input)
   \<and> itinerary (parseTravel ex_cities ex_attractions ex_rnd ex_input) ! 0
       \<in> set (itinerary (parseTravel ex_cities ex_attractions ex_rnd ex_input))
   \<and> ex_attractions (city (itinerary (parseTravel ex_cities ex_attractions ex_rnd ex_input) ! 0))
       = Some ex_entry
   \<and> distinct (spots ex_entry) \<and> distinct (foods ex_entry)
   \<and> 2 \<le> length (spot_names (itinerary (parseTravel ex_cities ex_attractions ex_rnd ex_input) ! 0))
   \<and> length (spot_names (itinerary (parseTravel ex_cities ex_attractions ex_rnd ex_input) ! 0)) \<le> 3
   \<and> 1 \<le> length (food_names (itinerary (parseTravel ex_cities ex_attractions ex_rnd ex_input) ! 0))
   \<and> length (food_names (itinerary (parseTravel ex_cities ex_attractions ex_rnd ex_input) ! 0)) \<le> 2
   \<and> distinct (spot_names (itinerary (parseTravel ex_cities ex_attractions ex_rnd ex_input) ! 0))
   \<and> distinct (food_names (itinerary (parseTravel ex_cities ex_attractions ex_rnd ex_input) ! 0))"
proof -
  let ?d = "itinerary (parseTravel ex_cities ex_attractions ex_rnd ex_input) ! 0"
  have a: "ex_attractions (city ?d) = Some ex_entry"
    by (simp only: ex_first_day(2) ex_attractions_gangneung)
  have ds: "distinct (spots ex_entry)" and df: "distinct (foods ex_entry)"
    by (simp_all add: ex_entry_def)
  have ls: "length (spots ex_entry) = 3" and lf: "length (foods ex_entry) = 2"
    by (simp_all add: ex_entry_def)
  from parseTravel_selection [OF ex_random_ok ex_try ex_first_day(1) a] ds df ls lf
  have "2 \<le> length (spot_names ?d) \<and> length (spot_names ?d) \<le> 3
      \<and> 1 \<le> length (food_names ?d) \<and> length (food_names ?d) \<le> 2
      \<and> distinct (spot_names ?d) \<and> distinct (food_names ?d)"
    by simp
  with ex_random_ok ex_try ex_first_day(1) a ds df show ?thesis by blast
qed

section \<open>parseTravel: the invariants of an itinerary\<close>

lemma make_day_no_entry:
  assumes "attractions (city_name (cs ! (i mod length cs))) = None"
  shows "locations (fst (make_day attractions rnd dates cs i k)) = []"
  using assms
  by (simp add: make_day_def cityData_of_def getRandomItems_def sort_random_def slice0_def
      make_locations_def Let_def)

lemma try_no_entry:
  assumes "parseTravel_try catalog attractions rnd input = Inr res" and "d \<in> set (itinerary res)"
    and "attractions (city d) = None"
  shows "locations d = []"
proof -
  from try_day [OF assms(1,2)] obtain i k where
    d: "d = fst (make_day attractions rnd (effective_dates input) (cities res) i k)"
    and c: "city d = city_name (cities res ! (i mod length (cities res)))" by blast
  from c assms(3) have "attractions (city_name (cities res ! (i mod length (cities res)))) = None"
    by simp
  then have "locations (fst (make_day attractions rnd (effective_dates input) (cities res) i k)) = []"
    by (rule make_day_no_entry)
  with d show ?thesis by simp
qed

lemma ex_sokcho_try:
  "parseTravel_try ex_cities ex_attractions ex_rnd sokcho
     = Inr (parseTravel ex_cities ex_attractions ex_rnd sokcho)"
  "cities (parseTravel ex_cities ex_attractions ex_rnd sokcho)
     = [\<lparr> city_name = sokcho, city_lat = 38.207, city_lng = 128.5918 \<rparr>]"
proof -
  have dc: "detect_cities ex_cities sokcho = [\<lparr> city_name = sokcho, city_lat = 38.207, city_lng = 128.5918 \<rparr>]"
    by (simp add: detect_cities_def ex_cities_def gangneung_def sokcho_def)
  then have d: "detectedCities_of ex_cities sokcho = Inr (detect_cities ex_cities sokcho)"
    by (simp add: detectedCities_of_def)
  from parseTravel_try_Inr [OF d, of ex_attractions ex_rnd]
  show t: "parseTravel_try ex_cities ex_attractions ex_rnd sokcho
     = Inr (parseTravel ex_cities ex_attractions ex_rnd sokcho)"
    by (simp add: parseTravel_def)
  from try_itinerary_length [OF t] d dc
  show "cities (parseTravel ex_cities ex_attractions ex_rnd sokcho)
     = [\<lparr> city_name = sokcho, city_lat = 38.207, city_lng = 128.5918 \<rparr>]" by simp
qed

text \<open>
  C6, as stated: every day has at least one location, also for a city whose catalog
  entry is absent. It fails on the input \<open>Sokcho\<close> with a table that has no entry for
  Sokcho: the first day is in Sokcho and has no location.
\<close>

theorem parseTravel_day_without_location_counterexample:
  "ex_attractions sokcho = None
   \<and> city (itinerary (parseTravel ex_cities ex_attractions ex_rnd sokcho) ! 0) = sokcho
   \<and> length (locations (itinerary (parseTravel ex_cities ex_attractions ex_rnd sokcho) ! 0)) = 0"
proof -
  let ?res = "parseTravel ex_cities ex_attractions ex_rnd sokcho"
  have n: "ex_attractions sokcho = None"
    by (simp add: ex_attractions_def gangneung_def sokcho_def)
  from try_itinerary_length [OF ex_sokcho_try(1)] have l: "0 < length (itinerary ?res)"
    using effective_dates_length [of sokcho] by auto
  from try_itinerary_nth [OF ex_sokcho_try(1) l] obtain k where
    "itinerary ?res ! 0 = fst (make_day ex_attractions ex_rnd (effective_dates sokcho) (cities ?res) 0 k)"
    by blast
  then have c: "city (itinerary ?res ! 0) = sokcho"
    by (simp add: make_day_fields ex_sokcho_try(2))
  from l have "itinerary ?res ! 0 \<in> set (itinerary ?res)" by simp
  from try_no_entry [OF ex_sokcho_try(1) this] c n have "locations (itinerary ?res ! 0) = []"
    by simp
  with n c show ?thesis by simp
qed

text \<open>
  C6, amended: every itinerary \<open>parseTravel\<close> returns (the fallback included) has at least
  one day, its day numbers are 1, 2, ... in order, and every day whose city has a catalog
  entry with at least one spot or one food has at least one location; a generated day
  whose city has no catalog entry has no location.
\<close>

theorem parseTravel_itinerary_invariants:
  assumes "random_ok rnd"
  shows "1 \<le> length (itinerary (parseTravel catalog attractions rnd input))
       \<and> (\<forall>i < length (itinerary (parseTravel catalog attractions rnd input)).
             day (itinerary (parseTravel catalog attractions rnd input) ! i) = i + 1)
       \<and> (\<forall>d \<in> set (itinerary (parseTravel catalog attractions rnd input)).
             \<forall>e. attractions (city d) = Some e \<and> (spots e \<noteq> [] \<or> foods e \<noteq> [])
                  \<longrightarrow> locations d \<noteq> [])
       \<and> (\<forall>res. parseTravel_try catalog attractions rnd input = Inr res
                  \<longrightarrow> (\<forall>d \<in> set (itinerary res). attractions (city d) = None \<longrightarrow> locations d = []))"
proof (cases "parseTravel_try catalog attractions rnd input")
  case (Inl err)
  then have "parseTravel catalog attractions rnd input = fallback" by (rule parseTravel_Inl)
  with Inl show ?thesis by (simp add: fallback_def)
next
  case (Inr res)
  then have p: "parseTravel catalog attractions rnd input = res" by (rule parseTravel_Inr)
  from try_itinerary_length [OF Inr] have l: "1 \<le> length (itinerary res)"
    using effective_dates_length [of input] by auto
  have dn: "day (itinerary res ! i) = i + 1" if "i < length (itinerary res)" for i
  proof -
    from try_itinerary_nth [OF Inr that] obtain k where
      "itinerary res ! i = fst (make_day attractions rnd (effective_dates input) (cities res) i k)"
      by blast
    then show ?thesis by (simp add: make_day_fields)
  qed
  have ne: "locations d \<noteq> []"
    if d: "d \<in> set (itinerary res)" and e: "attractions (city d) = Some e"
      and s: "spots e \<noteq> [] \<or> foods e \<noteq> []" for d e
  proof -
    from try_day [OF Inr d] obtain i k where
      dd: "d = fst (make_day attractions rnd (effective_dates input) (cities res) i k)"
      and c: "city d = city_name (cities res ! (i mod length (cities res)))" by blast
    from c e have ce: "cityData_of attractions (cities res ! (i mod length (cities res))) = e"
      by (simp add: cityData_of_def)
    note sp = make_day_spots(1) [OF assms, where attractions = attractions
      and dates = "effective_dates input" and cs = "cities res" and i = i and k = k,
      folded dd, unfolded ce]
    note fo = make_day_foods(1) [OF assms, where attractions = attractions
      and dates = "effective_dates input" and cs = "cities res" and i = i and k = k,
      folded dd, unfolded ce]
    from s have "0 < min (length (spots e)) 2 \<or> 0 < min (length (foods e)) 1" by auto
    with sp fo have "0 < length (spot_names d) + length (food_names d)" by linarith
    then have "0 < length (locations d)" by (simp add: locations_split)
    then show ?thesis by simp
  qed
  from p l dn ne try_no_entry [OF Inr] Inr show ?thesis by auto
qed

theorem parseTravel_itinerary_invariants_witness:
  "random_ok ex_rnd
   \<and> 1 \<le> length (itinerary (parseTravel ex_cities ex_attractions ex_rnd ex_input))
   \<and> day (itinerary (parseTravel ex_cities ex_attractions ex_rnd ex_input) ! 0) = 1
   \<and> locations (itinerary (parseTravel ex_cities ex_attractions ex_rnd ex_input) ! 0) \<noteq> []"
proof -
  let ?res = "parseTravel ex_cities ex_attractions ex_rnd ex_input"
  note t = parseTravel_itinerary_invariants [OF ex_random_ok, of ex_cities ex_attractions ex_input]
  from t have l: "1 \<le> length (itinerary ?res)" by blast
  from l have l0: "0 < length (itinerary ?res)" by linarith
  from t have "\<forall>i < length (itinerary ?res). day (itinerary ?res ! i) = i + 1" by blast
  with l0 have "day (itinerary ?res ! 0) = 0 + 1" by blast
  then have d: "day (itinerary ?res ! 0) = 1" by simp
  have "ex_attractions (city (itinerary ?res ! 0)) = Some ex_entry"
    by (simp only: ex_first_day(2) ex_attractions_gangneung)
  moreover have "spots ex_entry \<noteq> [] \<or> foods ex_entry \<noteq> []"
    by (simp add: ex_entry_def)
  ultimately have "ex_attractions (city (itinerary ?res ! 0)) = Some ex_entry
      \<and> (spots ex_entry \<noteq> [] \<or> foods ex_entry \<noteq> [])" by blast
  with t ex_first_day(1) have "locations (itinerary ?res ! 0) \<noteq> []" by blast
  with ex_random_ok l d show ?thesis by blast
qed

section \<open>The map module: what one day adds\<close>

lemma set_index_length: "length (set_index xs i v) = max (length xs) (Suc i)"
  by (auto simp add: set_index_def)

lemma set_index_same: "set_index xs i v ! i = Some v"
  by (auto simp add: set_index_def nth_append)

lemma set_index_other: "j \<noteq> i \<Longrightarrow> j < length xs \<Longrightarrow> set_index xs i v ! j = xs ! j"
  by (auto simp add: set_index_def nth_append)

lemma emit_fields [simp]:
  "log (emit as st) = log st @ as" "routing (emit as st) = routing st"
  "leaflet (emit as st) = leaflet st" "map_init (emit as st) = map_init st"
  "markers (emit as st) = markers st" "routeLayers (emit as st) = routeLayers st"
  by (simp_all add: emit_def)

text \<open>The inner loop places one marker per location and changes nothing else.\<close>

lemma place_markers:
  "\<exists>st' b'. forEach (place_marker d di) j locs (st, b) = (st', b')
     \<and> log st' = log st @ map (AddMarker di) [j..<j + length locs]
     \<and> routing st' = routing st
     \<and> b' = b @ map (\<lambda>loc. (loc_lat loc, loc_lng loc)) locs"
proof (induction locs arbitrary: j st b)
  case Nil
  then show ?case by simp
next
  case (Cons loc locs)
  obtain st1 b1 where s: "place_marker d di loc j (st, b) = (st1, b1)"
    by (cases "place_marker d di loc j (st, b)")
  then have f: "log st1 = log st @ [AddMarker di j]" "routing st1 = routing st"
    "b1 = b @ [(loc_lat loc, loc_lng loc)]"
    by (auto simp add: place_marker_def)
  from Cons.IH [of "Suc j" st1 b1] obtain st' b' where
    r: "forEach (place_marker d di) (Suc j) locs (st1, b1) = (st', b')"
    and l: "log st' = log st1 @ map (AddMarker di) [Suc j..<Suc j + length locs]"
    and o: "routing st' = routing st1" "b' = b1 @ map (\<lambda>loc. (loc_lat loc, loc_lng loc)) locs"
    by blast
  have "[j..<j + length (loc # locs)] = j # [Suc j..<Suc j + length locs]"
    by (simp add: upt_rec)
  with s r l o f show ?case by simp
qed

text \<open>The actions of day \<open>di\<close> up to its route request.\<close>

lemma process_day_routed:
  assumes "routed st d"
  shows "\<exists>st' b'. process_day d di (st, b, agg) = (st', b', agg\<lparr> handlers := handlers agg @ [di] \<rparr>)
     \<and> log st' = log st @ map (AddMarker di) [0..<length (locations d)]
                   @ [RouteRequest di (map (\<lambda>loc. (loc_lat loc, loc_lng loc)) (locations d))]
     \<and> routing st' = routing st
     \<and> b' = b @ map (\<lambda>loc. (loc_lat loc, loc_lng loc)) (locations d)"
proof -
  from place_markers [of d di 0 "locations d" st b] obtain st1 b1 where
    m: "forEach (place_marker d di) 0 (locations d) (st, b) = (st1, b1)"
    and l: "log st1 = log st @ map (AddMarker di) [0..<length (locations d)]"
    and o: "routing st1 = routing st" "b1 = b @ map (\<lambda>loc. (loc_lat loc, loc_lng loc)) (locations d)"
    by auto
  from assms o have "routed st1 d" by (simp add: routed_def)
  with m l o show ?thesis by (simp add: process_day_def)
qed

lemma process_day_unrouted:
  assumes "\<not> routed st d"
  shows "\<exists>st1 st' b' agg'. process_day d di (st, b, agg) = (st', b', agg')
     \<and> log st1 = log st @ map (AddMarker di) [0..<length (locations d)]
     \<and> routing st1 = routing st
     \<and> settle di zero_stat (st1, agg) = (st', agg')
     \<and> b' = b @ map (\<lambda>loc. (loc_lat loc, loc_lng loc)) (locations d)"
proof -
  from place_markers [of d di 0 "locations d" st b] obtain st1 b1 where
    m: "forEach (place_marker d di) 0 (locations d) (st, b) = (st1, b1)"
    and l: "log st1 = log st @ map (AddMarker di) [0..<length (locations d)]"
    and o: "routing st1 = routing st" "b1 = b @ map (\<lambda>loc. (loc_lat loc, loc_lng loc)) (locations d)"
    by auto
  from assms o have n: "\<not> routed st1 d" by (simp add: routed_def)
  obtain st2 agg2 where s: "settle di zero_stat (st1, agg) = (st2, agg2)"
    by (cases "settle di zero_stat (st1, agg)")
  with m n have "process_day d di (st, b, agg) = (st2, b1, agg2)"
    by (simp add: process_day_def)
  with l o s show ?thesis by blast
qed

text \<open>What \<open>settle\<close> does to the log and to the closure.\<close>

lemma settle_result:
  "settle di s (st, agg) =
     ((if routingCount agg + 1 = total agg \<and> callback agg
       then emit [OnRouteStats (set_index (dayStats agg) di s)] st else st),
      agg\<lparr> dayStats := set_index (dayStats agg) di s, routingCount := routingCount agg + 1 \<rparr>)"
  by (simp add: settle_def Let_def)

lemma settle_routing: "settle di s (st, agg) = (st', agg') \<Longrightarrow> routing st' = routing st"
  by (auto simp add: settle_result split: if_splits)

section \<open>The order of markers, route requests and bounds fitting\<close>

lemma none_after_append:
  "none_after P Q (xs @ ys)
     = (none_after P Q xs \<and> none_after P Q ys \<and> (list_ex P xs \<longrightarrow> list_all (\<lambda>b. \<not> Q b) ys))"
  by (induction xs) auto

lemma none_after_without: "list_all (\<lambda>a. \<not> P a) xs \<Longrightarrow> none_after P Q xs"
  by (induction xs) auto

lemma none_after_without_second: "list_all (\<lambda>a. \<not> Q a) xs \<Longrightarrow> none_after P Q xs"
  by (induction xs) auto

lemma process_day_log:
  "\<exists>st' b' agg' tail. process_day d di (st, b, agg) = (st', b', agg')
     \<and> log st' = log st @ map (AddMarker di) [0..<length (locations d)] @ tail
     \<and> routing st' = routing st
     \<and> (tail = [] \<or> (\<exists>w. tail = [RouteRequest di w]) \<or> (\<exists>s. tail = [OnRouteStats s]))"
proof (cases "routed st d")
  case True
  from process_day_routed [OF True, of di b agg] show ?thesis by auto
next
  case False
  from process_day_unrouted [OF False, of di b agg] obtain st1 st' b' agg' where
    p: "process_day d di (st, b, agg) = (st', b', agg')"
    and l: "log st1 = log st @ map (AddMarker di) [0..<length (locations d)]"
    and r: "routing st1 = routing st"
    and s: "settle di zero_stat (st1, agg) = (st', agg')" by blast
  from s l have "log st' = log st @ map (AddMarker di) [0..<length (locations d)] @ []
      \<or> (\<exists>x. log st' = log st @ map (AddMarker di) [0..<length (locations d)] @ [OnRouteStats x])"
    by (auto simp add: settle_result split: if_splits)
  moreover from s r have "routing st' = routing st" by (simp add: settle_routing)
  ultimately show ?thesis using p by blast
qed

text \<open>The actions of one day: its markers, then at most one more action.\<close>

lemma day_chunk_order:
  assumes "tail = [] \<or> (\<exists>w. tail = [RouteRequest di w]) \<or> (\<exists>s. tail = [OnRouteStats s])"
  shows "none_after (is_request_of d) (is_marker_of d) (map (AddMarker di) ns @ tail)"
    and "list_all (\<lambda>a. \<not> is_fit a) (map (AddMarker di) ns @ tail)"
    and "a \<in> set (map (AddMarker di) ns @ tail) \<Longrightarrow> is_marker_of d a \<or> is_request_of d a \<Longrightarrow> d = di"
    and "d < d' \<Longrightarrow> none_after (is_marker_of d') (is_request_of d) (map (AddMarker di) ns @ tail)"
proof -
  have m: "list_all (\<lambda>a. \<not> is_request_of d a) (map (AddMarker di) ns)"
    by (simp add: list_all_iff)
  from assms have t: "none_after (is_request_of d) (is_marker_of d) tail" by auto
  from m t show "none_after (is_request_of d) (is_marker_of d) (map (AddMarker di) ns @ tail)"
    by (simp add: none_after_append none_after_without list_ex_iff list_all_iff)
  from assms show "list_all (\<lambda>a. \<not> is_fit a) (map (AddMarker di) ns @ tail)"
    by (auto simp add: list_all_iff)
  show "d = di" if "a \<in> set (map (AddMarker di) ns @ tail)" and "is_marker_of d a \<or> is_request_of d a"
    using that assms by auto
  show "none_after (is_marker_of d') (is_request_of d) (map (AddMarker di) ns @ tail)" if "d < d'"
  proof (cases "d' = di")
    case True
    with that assms have "list_all (\<lambda>a. \<not> is_request_of d a) (map (AddMarker di) ns @ tail)"
      by (auto simp add: list_all_iff)
    then show ?thesis by (rule none_after_without_second)
  next
    case False
    with assms have "list_all (\<lambda>a. \<not> is_marker_of d' a) (map (AddMarker di) ns @ tail)"
      by (auto simp add: list_all_iff)
    then show ?thesis by (rule none_after_without)
  qed
qed

lemma days_loop_order:
  "\<exists>st' b' agg' new. forEach process_day i xs (st, b, agg) = (st', b', agg')
     \<and> log st' = log st @ new
     \<and> (\<forall>a \<in> set new. \<forall>d. is_marker_of d a \<or> is_request_of d a \<longrightarrow> i \<le> d)
     \<and> (\<forall>d. none_after (is_request_of d) (is_marker_of d) new)
     \<and> (\<forall>d d'. d < d' \<longrightarrow> none_after (is_marker_of d') (is_request_of d) new)
     \<and> list_all (\<lambda>a. \<not> is_fit a) new"
proof (induction xs arbitrary: i st b agg)
  case Nil
  then show ?case by simp
next
  case (Cons x xs)
  from process_day_log [of x i st b agg] obtain st1 b1 agg1 tail where
    p: "process_day x i (st, b, agg) = (st1, b1, agg1)"
    and l1: "log st1 = log st @ map (AddMarker i) [0..<length (locations x)] @ tail"
    and t: "tail = [] \<or> (\<exists>w. tail = [RouteRequest i w]) \<or> (\<exists>s. tail = [OnRouteStats s])"
    by blast
  let ?chunk = "map (AddMarker i) [0..<length (locations x)] @ tail"
  from Cons.IH [of "Suc i" st1 b1 agg1] obtain st' b' agg' new where
    r: "forEach process_day (Suc i) xs (st1, b1, agg1) = (st', b', agg')"
    and l2: "log st' = log st1 @ new"
    and d2: "\<forall>a \<in> set new. \<forall>d. is_marker_of d a \<or> is_request_of d a \<longrightarrow> Suc i \<le> d"
    and o2: "\<forall>d. none_after (is_request_of d) (is_marker_of d) new"
    and e2: "\<forall>d d'. d < d' \<longrightarrow> none_after (is_marker_of d') (is_request_of d) new"
    and f2: "list_all (\<lambda>a. \<not> is_fit a) new"
    by blast
  have run: "forEach process_day i (x # xs) (st, b, agg) = (st', b', agg')"
    using p r by simp
  have lg: "log st' = log st @ (?chunk @ new)" using l1 l2 by simp
  have days: "\<forall>a \<in> set (?chunk @ new). \<forall>d. is_marker_of d a \<or> is_request_of d a \<longrightarrow> i \<le> d"
  proof (intro ballI allI impI)
    fix a d
    assume a: "a \<in> set (?chunk @ new)" and k: "is_marker_of d a \<or> is_request_of d a"
    show "i \<le> d"
    proof (cases "a \<in> set ?chunk")
      case True
      from day_chunk_order(3) [OF t True k] show ?thesis by simp
    next
      case False
      with a have "a \<in> set new" by simp
      with d2 k have "Suc i \<le> d" by blast
      then show ?thesis by simp
    qed
  qed
  have order: "none_after (is_request_of d) (is_marker_of d) (?chunk @ new)" for d
  proof -
    have c: "none_after (is_request_of d) (is_marker_of d) ?chunk"
      by (rule day_chunk_order(1) [OF t])
    have "list_all (\<lambda>a. \<not> is_marker_of d a) new" if e: "list_ex (is_request_of d) ?chunk"
    proof -
      from e obtain a where "a \<in> set ?chunk" and "is_request_of d a"
        by (auto simp add: list_ex_iff)
      with day_chunk_order(3) [OF t, of a _ d] have "d = i" by blast
      with d2 show ?thesis by (fastforce simp add: list_all_iff)
    qed
    with c o2 show ?thesis by (simp only: none_after_append) blast
  qed
  have earlier: "none_after (is_marker_of d') (is_request_of d) (?chunk @ new)" if "d < d'" for d d'
  proof -
    have c: "none_after (is_marker_of d') (is_request_of d) ?chunk"
      by (rule day_chunk_order(4) [OF t that])
    have "list_all (\<lambda>a. \<not> is_request_of d a) new" if e: "list_ex (is_marker_of d') ?chunk"
    proof -
      from e obtain a where "a \<in> set ?chunk" and "is_marker_of d' a"
        by (auto simp add: list_ex_iff)
      with day_chunk_order(3) [OF t, of a _ d'] have "d' = i" by blast
      with \<open>d < d'\<close> d2 show ?thesis by (fastforce simp add: list_all_iff)
    qed
    with c e2 that show ?thesis by (simp only: none_after_append) blast
  qed
  have fit: "list_all (\<lambda>a. \<not> is_fit a) (?chunk @ new)"
    using day_chunk_order(2) [OF t] f2 by simp
  from run lg days order earlier fit show ?case by blast
qed

lemma clearMap_log:
  "\<exists>removes. log (clearMap st) = log st @ removes
     \<and> list_all (\<lambda>a. \<not> is_marker a \<and> \<not> is_request a \<and> \<not> is_fit a \<and> \<not> is_callback a) removes"
  by (auto simp add: clearMap_def Let_def list_all_iff)

lemma is_marker_of_marker: "is_marker_of d a \<Longrightarrow> is_marker a"
  by (cases a) auto

lemma is_request_of_request: "is_request_of d a \<Longrightarrow> is_request a"
  by (cases a) auto

lemma is_marker_some: "is_marker a \<Longrightarrow> \<exists>d. is_marker_of d a"
  by (cases a) auto

lemma addMarkersToMap_added:
  assumes "leaflet st" and "map_init st"
  shows "\<exists>removes new fit. added st (fst (addMarkersToMap st itin cb)) = removes @ new @ fit
     \<and> list_all (\<lambda>a. \<not> is_marker a \<and> \<not> is_request a \<and> \<not> is_fit a \<and> \<not> is_callback a) removes
     \<and> (\<forall>d. none_after (is_request_of d) (is_marker_of d) new)
     \<and> (\<forall>d d'. d < d' \<longrightarrow> none_after (is_marker_of d') (is_request_of d) new)
     \<and> list_all (\<lambda>a. \<not> is_fit a) new
     \<and> (fit = [] \<or> (\<exists>b. fit = [FitBounds b]))"
proof -
  let ?agg0 = "\<lparr> total = length itin, callback = cb, dayStats = [], routingCount = 0, handlers = [] \<rparr>"
  from clearMap_log [of st] obtain removes where
    c: "log (clearMap st) = log st @ removes"
    and cr: "list_all (\<lambda>a. \<not> is_marker a \<and> \<not> is_request a \<and> \<not> is_fit a \<and> \<not> is_callback a) removes"
    by blast
  from days_loop_order [of 0 itin "clearMap st" "[]" ?agg0] obtain st1 b agg new where
    r: "forEach process_day 0 itin (clearMap st, [], ?agg0) = (st1, b, agg)"
    and l: "log st1 = log (clearMap st) @ new"
    and o: "\<forall>d. none_after (is_request_of d) (is_marker_of d) new"
    and e: "\<forall>d d'. d < d' \<longrightarrow> none_after (is_marker_of d') (is_request_of d) new"
    and f: "list_all (\<lambda>a. \<not> is_fit a) new"
    by blast
  let ?fit = "if b \<noteq> [] then [FitBounds b] else []"
  from assms r have "fst (addMarkersToMap st itin cb) = (if b \<noteq> [] then emit [FitBounds b] st1 else st1)"
    by (simp add: addMarkersToMap_def)
  with l c have "log (fst (addMarkersToMap st itin cb)) = log st @ (removes @ new @ ?fit)"
    by simp
  then have "added st (fst (addMarkersToMap st itin cb)) = removes @ new @ ?fit"
    by (simp add: added_def)
  moreover have "?fit = [] \<or> (\<exists>b. ?fit = [FitBounds b])" by simp
  ultimately show ?thesis using cr o e f by blast
qed

text \<open>
  C9, as stated: with the map available, every marker placement and the bounds fitting
  come before any route request. It fails for two days of two locations each: the route
  request of the first day is issued before the markers of the second day are placed,
  and the bounds fitting comes after both route requests.
\<close>

theorem addMarkersToMap_requests_first_counterexample:
  "leaflet ex_map \<and> map_init ex_map
   \<and> \<not> none_after is_request is_marker (added ex_map (fst (addMarkersToMap ex_map [ex_day 1, ex_day 2] True)))
   \<and> \<not> none_after is_request is_fit (added ex_map (fst (addMarkersToMap ex_map [ex_day 1, ex_day 2] True)))"
  by (simp add: added_def addMarkersToMap_def ex_map_def clearMap_def process_day_def
      place_marker_def emit_def ex_day_def settle_def routed_def)

text \<open>
  C9, amended: in every call of \<open>addMarkersToMap\<close> with the map available, the markers of
  a day are all placed before that day's route request is issued; the route request of a
  day is issued before the markers of any later day are placed; and the bounds fitting
  comes after every marker placement and every route request of the call.
\<close>

theorem addMarkersToMap_order:
  assumes "leaflet st" and "map_init st"
  shows "(\<forall>d. none_after (is_request_of d) (is_marker_of d) (added st (fst (addMarkersToMap st itin cb))))
       \<and> (\<forall>d d'. d < d' \<longrightarrow>
             none_after (is_marker_of d') (is_request_of d) (added st (fst (addMarkersToMap st itin cb))))
       \<and> none_after is_fit is_marker (added st (fst (addMarkersToMap st itin cb)))
       \<and> none_after is_fit is_request (added st (fst (addMarkersToMap st itin cb)))"
proof -
  from addMarkersToMap_added [OF assms, of itin cb] obtain removes new fit where
    a: "added st (fst (addMarkersToMap st itin cb)) = removes @ new @ fit"
    and cr: "list_all (\<lambda>a. \<not> is_marker a \<and> \<not> is_request a \<and> \<not> is_fit a \<and> \<not> is_callback a) removes"
    and o: "\<forall>d. none_after (is_request_of d) (is_marker_of d) new"
    and e: "\<forall>d d'. d < d' \<longrightarrow> none_after (is_marker_of d') (is_request_of d) new"
    and f: "list_all (\<lambda>a. \<not> is_fit a) new"
    and t: "fit = [] \<or> (\<exists>b. fit = [FitBounds b])"
    by blast
  have nr: "list_all (\<lambda>a. \<not> is_request_of d a) removes" for d
    using cr by (auto simp add: list_all_iff dest: is_request_of_request)
  have nf: "list_all (\<lambda>a. \<not> is_fit a) (removes @ new)"
    using cr f by (auto simp add: list_all_iff)
  have tf: "list_all (\<lambda>a. \<not> is_marker_of d a) fit" "none_after (is_request_of d) (is_marker_of d) fit" for d
    using t by auto
  have 1: "none_after (is_request_of d) (is_marker_of d) (removes @ new @ fit)" for d
    using nr [of d] o tf [of d]
    by (simp add: none_after_append none_after_without list_ex_iff list_all_iff)
  have nm: "list_all (\<lambda>a. \<not> is_marker_of d a) removes" for d
    using cr by (auto simp add: list_all_iff dest: is_marker_of_marker)
  have te: "list_all (\<lambda>a. \<not> is_request_of d a) fit" for d
    using t by auto
  have te': "none_after (is_marker_of d') (is_request_of d) fit" for d d'
    using t by auto
  have 3: "none_after (is_marker_of d') (is_request_of d) (removes @ new @ fit)" if "d < d'" for d d'
    using nm [of d'] e that te [of d] te' [where d = d and d' = d']
    by (simp add: none_after_append none_after_without list_ex_iff list_all_iff)
  have tq: "none_after is_fit Q fit" for Q :: "action \<Rightarrow> bool"
    using t by auto
  have 2: "none_after is_fit Q ((removes @ new) @ fit)" for Q :: "action \<Rightarrow> bool"
    using nf tq [of Q]
    by (simp only: none_after_append) (simp add: none_after_without list_ex_iff list_all_iff)
  from 1 3 2 [of is_marker] 2 [of is_request] a show ?thesis by simp
qed

theorem addMarkersToMap_order_witness:
  "leaflet ex_map \<and> map_init ex_map
   \<and> none_after (is_request_of 0) (is_marker_of 0) (added ex_map ex_rendered)
   \<and> none_after (is_request_of 1) (is_marker_of 1) (added ex_map ex_rendered)
   \<and> none_after (is_marker_of 1) (is_request_of 0) (added ex_map ex_rendered)
   \<and> none_after is_fit is_marker (added ex_map ex_rendered)
   \<and> none_after is_fit is_request (added ex_map ex_rendered)"
proof -
  have h: "leaflet ex_map" "map_init ex_map" by (simp_all add: ex_map_def)
  from addMarkersToMap_order [OF h, of "[ex_day 1, ex_day 2]" True] h show ?thesis
    by (simp add: ex_rendered_def)
qed

section \<open>The statistics callback\<close>

lemma full_card:
  assumes "S \<subseteq> {0..<n}"
  shows "card S = n \<longleftrightarrow> S = {0..<n}"
proof
  assume "card S = n"
  then have "card S = card {0..<n}" by simp
  with assms show "S = {0..<n}" by (simp add: card_subset_eq)
next
  assume "S = {0..<n}"
  then show "card S = n" by simp
qed

text \<open>One more day settles.\<close>

lemma settle_inv:
  assumes inv: "settled_inv S val agg" and d: "d \<notin> S" "d < total agg" and v: "val d = s"
    and cbs: "filter is_callback (log st) = cbs0"
    and run: "settle d s (st, agg) = (st', agg')"
  shows "settled_inv (insert d S) val agg'"
    and "total agg' = total agg" and "callback agg' = callback agg" and "handlers agg' = handlers agg"
    and "routing st' = routing st"
    and "filter is_callback (log st') =
           cbs0 @ (if insert d S = {0..<total agg} \<and> callback agg
                   then [OnRouteStats (dayStats agg')] else [])"
proof -
  from run have agg': "agg' = agg\<lparr> dayStats := set_index (dayStats agg) d s,
      routingCount := routingCount agg + 1 \<rparr>"
    and st': "st' = (if routingCount agg + 1 = total agg \<and> callback agg
       then emit [OnRouteStats (set_index (dayStats agg) d s)] st else st)"
    by (simp_all add: settle_result)
  from inv have sub: "S \<subseteq> {0..<total agg}" and cnt: "routingCount agg = card S"
    and len: "length (dayStats agg) \<le> total agg"
    and ent: "\<forall>x \<in> S. x < length (dayStats agg) \<and> dayStats agg ! x = Some (val x)"
    by (simp_all add: settled_inv_def)
  from sub have fin: "finite S" by (rule finite_subset) simp
  from sub d have sub': "insert d S \<subseteq> {0..<total agg}" by simp
  from fin d have card': "card (insert d S) = card S + 1" by simp
  show "total agg' = total agg" "callback agg' = callback agg" "handlers agg' = handlers agg"
    by (simp_all add: agg')
  show "routing st' = routing st" by (simp add: st')
  have e': "x < length (dayStats agg') \<and> dayStats agg' ! x = Some (val x)" if "x \<in> insert d S" for x
  proof (cases "x = d")
    case True
    with v show ?thesis by (simp add: agg' set_index_length set_index_same)
  next
    case False
    with that have "x \<in> S" by simp
    with ent have "x < length (dayStats agg)" "dayStats agg ! x = Some (val x)" by simp_all
    with False show ?thesis by (simp add: agg' set_index_length set_index_other)
  qed
  from sub' cnt card' len d e' show "settled_inv (insert d S) val agg'"
    by (simp add: settled_inv_def agg' set_index_length)
  from full_card [OF sub'] card' cnt
  have "routingCount agg + 1 = total agg \<longleftrightarrow> insert d S = {0..<total agg}" by simp
  with cbs show "filter is_callback (log st') =
           cbs0 @ (if insert d S = {0..<total agg} \<and> callback agg
                   then [OnRouteStats (dayStats agg')] else [])"
    by (simp add: st' agg')
qed

lemma filter_callback_markers: "filter is_callback (map (AddMarker di) ns) = []"
  by (induction ns) auto

text \<open>
  The synchronous pass over the days from index \<open>i\<close> on: the days without a route settle
  with zero statistics, the others get a handler.
\<close>

lemma sync_loop:
  assumes "total agg = length itin" and "xs = drop i itin" and "i \<le> length itin"
    and "settled_inv S val agg" and "S \<subseteq> {0..<i}"
    and "\<forall>d < length itin. \<not> routed st (itin ! d) \<longrightarrow> val d = zero_stat"
    and "filter is_callback (log st) =
           cbs0 @ (if S = {0..<length itin} \<and> callback agg then [OnRouteStats (dayStats agg)] else [])"
  shows "\<exists>st' b' agg'. forEach process_day i xs (st, b, agg) = (st', b', agg')
     \<and> settled_inv (S \<union> {d. i \<le> d \<and> d < length itin \<and> \<not> routed st (itin ! d)}) val agg'
     \<and> total agg' = length itin \<and> callback agg' = callback agg \<and> routing st' = routing st
     \<and> set (handlers agg') = set (handlers agg) \<union> {d. i \<le> d \<and> d < length itin \<and> routed st (itin ! d)}
     \<and> filter is_callback (log st') =
           cbs0 @ (if S \<union> {d. i \<le> d \<and> d < length itin \<and> \<not> routed st (itin ! d)} = {0..<length itin}
                      \<and> callback agg
                   then [OnRouteStats (dayStats agg')] else [])"
  using assms
proof (induction xs arbitrary: i st b agg S)
  case Nil
  from Nil.prems(2) have i: "length itin \<le> i" by simp
  have e1: "{d. i \<le> d \<and> d < length itin \<and> \<not> routed st (itin ! d)} = {}" using i by auto
  have e2: "{d. i \<le> d \<and> d < length itin \<and> routed st (itin ! d)} = {}" using i by auto
  from Nil.prems(1,4,7) show ?case unfolding e1 e2 by simp
next
  case (Cons x xs)
  let ?N = "length itin"
  from Cons.prems(2) have i: "i < ?N" by (metis drop_eq_Nil list.distinct(1) not_le)
  with Cons.prems(2) have x: "x = itin ! i" and xs: "xs = drop (Suc i) itin"
    by (metis Cons_nth_drop_Suc list.inject)+
  from Cons.prems(5) have notin: "i \<notin> S" by auto
  with i have notfull: "S \<noteq> {0..<?N}" by auto
  with Cons.prems(7) have cbs: "filter is_callback (log st) = cbs0" by simp
  show ?case
  proof (cases "routed st x")
    case True
    from process_day_routed [OF True, of i b agg] obtain st1 b1 where
      p: "process_day x i (st, b, agg) = (st1, b1, agg\<lparr> handlers := handlers agg @ [i] \<rparr>)"
      and l: "log st1 = log st @ map (AddMarker i) [0..<length (locations x)]
                 @ [RouteRequest i (map (\<lambda>loc. (loc_lat loc, loc_lng loc)) (locations x))]"
      and r: "routing st1 = routing st" by blast
    from r have rr: "routed st1 d = routed st d" for d by (simp add: routed_def)
    let ?agg1 = "agg\<lparr> handlers := handlers agg @ [i] \<rparr>"
    from l cbs notfull have c1: "filter is_callback (log st1) =
        cbs0 @ (if S = {0..<?N} \<and> callback ?agg1 then [OnRouteStats (dayStats ?agg1)] else [])"
      by (simp add: filter_callback_markers)
    from Cons.prems(4) have inv1: "settled_inv S val ?agg1" by (simp add: settled_inv_def)
    from Cons.prems(5) have s1: "S \<subseteq> {0..<Suc i}" by auto
    from Cons.prems(6) have v1: "\<forall>d < ?N. \<not> routed st1 (itin ! d) \<longrightarrow> val d = zero_stat"
      by (simp add: rr)
    from Cons.prems(1) have t1: "total ?agg1 = ?N" by simp
    from i have i1: "Suc i \<le> ?N" by simp
    from Cons.IH [OF t1 xs i1 inv1 s1 v1 c1, of b1] obtain st' b' agg' where
      f: "forEach process_day (Suc i) xs (st1, b1, ?agg1) = (st', b', agg')"
      and inv': "settled_inv (S \<union> {d. Suc i \<le> d \<and> d < ?N \<and> \<not> routed st1 (itin ! d)}) val agg'"
      and o': "total agg' = ?N" "callback agg' = callback ?agg1" "routing st' = routing st1"
      and h': "set (handlers agg') = set (handlers ?agg1) \<union> {d. Suc i \<le> d \<and> d < ?N \<and> routed st1 (itin ! d)}"
      and c': "filter is_callback (log st') =
           cbs0 @ (if S \<union> {d. Suc i \<le> d \<and> d < ?N \<and> \<not> routed st1 (itin ! d)} = {0..<?N}
                      \<and> callback ?agg1
                   then [OnRouteStats (dayStats agg')] else [])"
      by blast
    from True x have "{d. i \<le> d \<and> d < ?N \<and> \<not> routed st (itin ! d)}
        = {d. Suc i \<le> d \<and> d < ?N \<and> \<not> routed st1 (itin ! d)}"
      by (auto simp add: rr le_eq_less_or_eq Suc_le_eq)
    moreover from True x i have "insert i {d. Suc i \<le> d \<and> d < ?N \<and> routed st1 (itin ! d)}
        = {d. i \<le> d \<and> d < ?N \<and> routed st (itin ! d)}"
      by (auto simp add: rr le_eq_less_or_eq Suc_le_eq)
    ultimately show ?thesis using p f inv' o' h' c' r by auto
  next
    case False
    from process_day_unrouted [OF False, of i b agg] obtain st1 st2 b2 agg2 where
      p: "process_day x i (st, b, agg) = (st2, b2, agg2)"
      and l: "log st1 = log st @ map (AddMarker i) [0..<length (locations x)]"
      and r: "routing st1 = routing st"
      and s: "settle i zero_stat (st1, agg) = (st2, agg2)" by blast
    from l cbs have c1: "filter is_callback (log st1) = cbs0" by (simp add: filter_callback_markers)
    from False x i Cons.prems(6) have v: "val i = zero_stat" by simp
    from i Cons.prems(1) have it: "i < total agg" by simp
    note si = settle_inv [OF Cons.prems(4) notin it v c1 s]
    from Cons.prems(1) si(2) have t2: "total agg2 = ?N" by simp
    from Cons.prems(5) have s2: "insert i S \<subseteq> {0..<Suc i}" by auto
    from si(5) r have r2: "routing st2 = routing st" by simp
    then have rr: "routed st2 d = routed st d" for d by (simp add: routed_def)
    from Cons.prems(6) have v2: "\<forall>d < ?N. \<not> routed st2 (itin ! d) \<longrightarrow> val d = zero_stat"
      by (simp add: rr)
    from si(6) si(3) Cons.prems(1) have c2: "filter is_callback (log st2) =
        cbs0 @ (if insert i S = {0..<?N} \<and> callback agg2 then [OnRouteStats (dayStats agg2)] else [])"
      by simp
    from i have i1: "Suc i \<le> ?N" by simp
    from Cons.IH [OF t2 xs i1 si(1) s2 v2 c2, of b2] obtain st' b' agg' where
      f: "forEach process_day (Suc i) xs (st2, b2, agg2) = (st', b', agg')"
      and inv': "settled_inv (insert i S \<union> {d. Suc i \<le> d \<and> d < ?N \<and> \<not> routed st2 (itin ! d)}) val agg'"
      and o': "total agg' = ?N" "callback agg' = callback agg2" "routing st' = routing st2"
      and h': "set (handlers agg') = set (handlers agg2) \<union> {d. Suc i \<le> d \<and> d < ?N \<and> routed st2 (itin ! d)}"
      and c': "filter is_callback (log st') =
           cbs0 @ (if insert i S \<union> {d. Suc i \<le> d \<and> d < ?N \<and> \<not> routed st2 (itin ! d)} = {0..<?N}
                      \<and> callback agg2
                   then [OnRouteStats (dayStats agg')] else [])"
      by blast
    from False x i have "insert i S \<union> {d. Suc i \<le> d \<and> d < ?N \<and> \<not> routed st2 (itin ! d)}
        = S \<union> {d. i \<le> d \<and> d < ?N \<and> \<not> routed st (itin ! d)}"
      by (auto simp add: rr le_eq_less_or_eq Suc_le_eq)
    moreover from False x have "{d. Suc i \<le> d \<and> d < ?N \<and> routed st2 (itin ! d)}
        = {d. i \<le> d \<and> d < ?N \<and> routed st (itin ! d)}"
      by (auto simp add: rr le_eq_less_or_eq Suc_le_eq)
    ultimately show ?thesis using p f inv' o' h' c' r2 si(3) si(4) by auto
  qed
qed

text \<open>The \<open>routesfound\<close> events, in the order they arrive.\<close>

lemma async_events:
  assumes "settled_inv S val agg" and "distinct (map fst evs)"
    and "fst ` set evs \<inter> S = {}" and "fst ` set evs \<subseteq> set (handlers agg)"
    and "\<forall>d \<in> fst ` set evs. d < total agg"
    and "\<forall>e \<in> set evs. val (fst e) = route_stat (fst (snd e)) (snd (snd e))"
    and "filter is_callback (log st) =
           cbs0 @ (if S = {0..<total agg} \<and> callback agg then [OnRouteStats (dayStats agg)] else [])"
  shows "\<exists>st' agg'. fold routesfound evs (st, agg) = (st', agg')
     \<and> settled_inv (S \<union> fst ` set evs) val agg'
     \<and> total agg' = total agg \<and> callback agg' = callback agg
     \<and> filter is_callback (log st') =
           cbs0 @ (if S \<union> fst ` set evs = {0..<total agg} \<and> callback agg
                   then [OnRouteStats (dayStats agg')] else [])"
  using assms
proof (induction evs arbitrary: st agg S)
  case Nil
  then show ?case by simp
next
  case (Cons e evs)
  obtain d m t where e: "e = (d, m, t)" by (cases e)
  from Cons.prems(3) e have notin: "d \<notin> S" by auto
  from Cons.prems(5) e have dt: "d < total agg" by simp
  from Cons.prems(4) e have h: "d \<in> set (handlers agg)" by simp
  from Cons.prems(6) e have v: "val d = route_stat m t" by simp
  from notin dt have "S \<noteq> {0..<total agg}" by auto
  with Cons.prems(7) have cbs: "filter is_callback (log st) = cbs0" by simp
  obtain st1 agg1 where s: "settle d (route_stat m t) (st, agg) = (st1, agg1)"
    by (cases "settle d (route_stat m t) (st, agg)")
  with h e have r: "routesfound e (st, agg) = (st1, agg1)" by (simp add: routesfound_def)
  note si = settle_inv [OF Cons.prems(1) notin dt v cbs s]
  from Cons.prems(2) have d1: "distinct (map fst evs)" by simp
  from Cons.prems(2,3) e have d2: "fst ` set evs \<inter> insert d S = {}" by auto
  from Cons.prems(4) si(4) have d3: "fst ` set evs \<subseteq> set (handlers agg1)" by simp
  from Cons.prems(5) si(2) have d4: "\<forall>d \<in> fst ` set evs. d < total agg1" by simp
  from Cons.prems(6) have d5: "\<forall>e \<in> set evs. val (fst e) = route_stat (fst (snd e)) (snd (snd e))"
    by simp
  from si(6) si(2) si(3) have d6: "filter is_callback (log st1) =
      cbs0 @ (if insert d S = {0..<total agg1} \<and> callback agg1
              then [OnRouteStats (dayStats agg1)] else [])" by simp
  from Cons.IH [OF si(1) d1 d2 d3 d4 d5 d6] obtain st' agg' where
    f: "fold routesfound evs (st1, agg1) = (st', agg')"
    and i': "settled_inv (insert d S \<union> fst ` set evs) val agg'"
    and o': "total agg' = total agg1" "callback agg' = callback agg1"
    and c': "filter is_callback (log st') =
           cbs0 @ (if insert d S \<union> fst ` set evs = {0..<total agg1} \<and> callback agg1
                   then [OnRouteStats (dayStats agg')] else [])"
    by blast
  have "insert d S \<union> fst ` set evs = S \<union> fst ` set (e # evs)" using e by auto
  with r f i' o' c' si(2) si(3) show ?case by simp
qed

lemma found_stat_event:
  "distinct (map fst evs) \<Longrightarrow> (d, m, t) \<in> set evs \<Longrightarrow> found_stat evs d = route_stat m t"
  by (simp add: found_stat_def)

lemma found_stat_none: "d \<notin> fst ` set evs \<Longrightarrow> found_stat evs d = zero_stat"
  by (simp add: found_stat_def map_of_eq_None_iff [THEN iffD2])

lemma settled_all:
  assumes "settled_inv {0..<total agg} val agg"
  shows "length (dayStats agg) = total agg" and "\<forall>d < total agg. dayStats agg ! d = Some (val d)"
proof -
  from assms have len: "length (dayStats agg) \<le> total agg"
    and ent: "\<forall>d \<in> {0..<total agg}. d < length (dayStats agg) \<and> dayStats agg ! d = Some (val d)"
    by (simp_all add: settled_inv_def)
  from ent show "\<forall>d < total agg. dayStats agg ! d = Some (val d)" by simp
  show "length (dayStats agg) = total agg"
  proof (cases "total agg")
    case 0
    with len show ?thesis by simp
  next
    case (Suc n)
    with ent have "n < length (dayStats agg)" by simp
    with len Suc show ?thesis by simp
  qed
qed

lemma clearMap_fields:
  "routing (clearMap st) = routing st"
  "filter is_callback (log (clearMap st)) = filter is_callback (log st)"
proof -
  show "routing (clearMap st) = routing st" by (simp add: clearMap_def Let_def)
  from clearMap_log [of st] obtain removes where
    "log (clearMap st) = log st @ removes" and "list_all (\<lambda>a. \<not> is_callback a) removes"
    by (auto simp add: list_all_iff)
  then show "filter is_callback (log (clearMap st)) = filter is_callback (log st)"
    by (simp add: list_all_iff)
qed

text \<open>
  C1. For an itinerary of \<open>N\<close> days (\<open>N\<close> at least 1, as every itinerary is) drawn with the
  map available and a callback that is a function: when the \<open>routesfound\<close> events \<open>evs\<close>
  that follow the call are one event for each day that got a route request, in any order
  (the other days settled during the call, without a route), the callback is called
  exactly once, with an array of length \<open>N\<close> whose entry \<open>d\<close> holds the statistics computed
  from the event of day \<open>d\<close>, or zero statistics when day \<open>d\<close> has no route.
\<close>

theorem route_stats_callback_once:
  assumes "leaflet st" and "map_init st" and "itin \<noteq> []"
    and "addMarkersToMap st itin True = (st1, Some agg)"
    and "distinct (map fst evs)"
    and "fst ` set evs = {d. d < length itin \<and> routed st (itin ! d)}"
  shows "\<exists>stats. filter is_callback (log (fst (fold routesfound evs (st1, agg))))
             = filter is_callback (log st) @ [OnRouteStats stats]
         \<and> length stats = length itin
         \<and> (\<forall>(d, m, t) \<in> set evs. stats ! d = Some (route_stat m t))
         \<and> (\<forall>d < length itin. \<not> routed st (itin ! d) \<longrightarrow> stats ! d = Some zero_stat)"
proof -
  let ?N = "length itin"
  let ?val = "found_stat evs"
  let ?cbs0 = "filter is_callback (log st)"
  let ?agg0 = "\<lparr> total = ?N, callback = True, dayStats = [], routingCount = 0, handlers = [] \<rparr>"
  let ?U = "{d. 0 \<le> d \<and> d < ?N \<and> \<not> routed (clearMap st) (itin ! d)}"
  let ?R = "{d. 0 \<le> d \<and> d < ?N \<and> routed (clearMap st) (itin ! d)}"
  have rr: "routed (clearMap st) d = routed st d" for d
    by (simp add: routed_def clearMap_fields)
  from assms(3) have N: "0 < ?N" by simp
  then have ne: "{} \<noteq> {0..<?N}" by auto
  have p1: "total ?agg0 = ?N" by simp
  have p2: "itin = drop 0 itin" by simp
  have p3: "0 \<le> ?N" by simp
  have p4: "settled_inv {} ?val ?agg0" by (simp add: settled_inv_def)
  have p5: "{} \<subseteq> {0..<(0::nat)}" by simp
  have p6: "\<forall>d < ?N. \<not> routed (clearMap st) (itin ! d) \<longrightarrow> ?val d = zero_stat"
  proof (intro allI impI)
    fix d assume "d < ?N" and "\<not> routed (clearMap st) (itin ! d)"
    with assms(6) have "d \<notin> fst ` set evs" by (simp add: rr)
    then show "?val d = zero_stat" by (rule found_stat_none)
  qed
  from ne have p7: "filter is_callback (log (clearMap st)) =
      ?cbs0 @ (if {} = {0..<?N} \<and> callback ?agg0 then [OnRouteStats (dayStats ?agg0)] else [])"
    by (simp add: clearMap_fields)
  from sync_loop [OF p1 p2 p3 p4 p5 p6 p7, of "[]"] obtain st' b' agg' where
    f: "forEach process_day 0 itin (clearMap st, [], ?agg0) = (st', b', agg')"
    and inv: "settled_inv ({} \<union> ?U) ?val agg'"
    and tot: "total agg' = ?N" and cb: "callback agg' = callback ?agg0"
    and h: "set (handlers agg') = set (handlers ?agg0) \<union> ?R"
    and c: "filter is_callback (log st') =
           ?cbs0 @ (if {} \<union> ?U = {0..<?N} \<and> callback ?agg0
                    then [OnRouteStats (dayStats agg')] else [])"
    by blast
  from assms(1,2,4) f have st1: "st1 = (if b' \<noteq> [] then emit [FitBounds b'] st' else st')"
    and agg: "agg = agg'"
    by (simp_all add: addMarkersToMap_def)
  from st1 have l1: "filter is_callback (log st1) = filter is_callback (log st')" by simp
  from assms(6) have ev: "fst ` set evs = ?R" by (auto simp add: rr)
  have q1: "settled_inv ?U ?val agg" using inv agg by simp
  have q3: "fst ` set evs \<inter> ?U = {}" using ev by auto
  have q4: "fst ` set evs \<subseteq> set (handlers agg)" using ev h agg by simp
  have q5: "\<forall>d \<in> fst ` set evs. d < total agg" using ev tot agg by auto
  have q6: "\<forall>e \<in> set evs. ?val (fst e) = route_stat (fst (snd e)) (snd (snd e))"
  proof
    fix e assume e: "e \<in> set evs"
    obtain d m t where "e = (d, m, t)" by (cases e)
    with e found_stat_event [OF assms(5), of d m t] show "?val (fst e) = route_stat (fst (snd e)) (snd (snd e))"
      by simp
  qed
  have q7: "filter is_callback (log st1) =
      ?cbs0 @ (if ?U = {0..<total agg} \<and> callback agg then [OnRouteStats (dayStats agg)] else [])"
    using c l1 agg tot cb by simp
  from async_events [OF q1 assms(5) q3 q4 q5 q6 q7] obtain st2 agg2 where
    g: "fold routesfound evs (st1, agg) = (st2, agg2)"
    and inv2: "settled_inv (?U \<union> fst ` set evs) ?val agg2"
    and o2: "total agg2 = total agg" "callback agg2 = callback agg"
    and c2: "filter is_callback (log st2) =
           ?cbs0 @ (if ?U \<union> fst ` set evs = {0..<total agg} \<and> callback agg
                    then [OnRouteStats (dayStats agg2)] else [])"
    by blast
  have full: "?U \<union> fst ` set evs = {0..<?N}" using ev by auto
  from o2 agg tot cb have t2: "total agg2 = ?N" "callback agg = True" by simp_all
  from inv2 full t2 have "settled_inv {0..<total agg2} ?val agg2" by simp
  from settled_all [OF this] t2 have len: "length (dayStats agg2) = ?N"
    and ent: "\<forall>d < ?N. dayStats agg2 ! d = Some (?val d)" by simp_all
  from c2 full t2 agg tot have cbs: "filter is_callback (log st2) = ?cbs0 @ [OnRouteStats (dayStats agg2)]"
    by simp
  have e1: "\<forall>(d, m, t) \<in> set evs. dayStats agg2 ! d = Some (route_stat m t)"
  proof (clarify)
    fix d m t assume e: "(d, m, t) \<in> set evs"
    then have "d \<in> fst ` set evs" by force
    with assms(6) have "d < ?N" by simp
    with ent found_stat_event [OF assms(5) e] show "dayStats agg2 ! d = Some (route_stat m t)"
      by simp
  qed
  have e2: "\<forall>d < ?N. \<not> routed st (itin ! d) \<longrightarrow> dayStats agg2 ! d = Some zero_stat"
  proof (intro allI impI)
    fix d assume d: "d < ?N" and "\<not> routed st (itin ! d)"
    with assms(6) have "d \<notin> fst ` set evs" by simp
    from found_stat_none [OF this] ent d show "dayStats agg2 ! d = Some zero_stat" by simp
  qed
  from g cbs len e1 e2 show ?thesis by auto
qed

lemma ex_addMarkersToMap:
  "addMarkersToMap ex_map [ex_day 1, ex_day 2] True = (ex_rendered, Some ex_closure)"
  by (simp add: ex_rendered_def ex_closure_def addMarkersToMap_def ex_map_def clearMap_def
      process_day_def place_marker_def emit_def ex_day_def settle_def routed_def)

lemma ex_routed_days:
  "fst ` set ex_events
     = {d. d < length [ex_day 1, ex_day 2] \<and> routed ex_map ([ex_day 1, ex_day 2] ! d)}"
  by (auto simp add: ex_events_def routed_def ex_map_def ex_day_def nth_Cons' less_Suc_eq numeral_2_eq_2)

theorem route_stats_callback_once_witness:
  "leaflet ex_map \<and> map_init ex_map
   \<and> addMarkersToMap ex_map [ex_day 1, ex_day 2] True = (ex_rendered, Some ex_closure)
   \<and> distinct (map fst ex_events)
   \<and> fst ` set ex_events
       = {d. d < length [ex_day 1, ex_day 2] \<and> routed ex_map ([ex_day 1, ex_day 2] ! d)}
   \<and> filter is_callback (log (fst (fold routesfound ex_events (ex_rendered, ex_closure))))
       = [OnRouteStats [Some (route_stat 6789 600), Some (route_stat 12345 1234)]]"
proof -
  have h: "leaflet ex_map" "map_init ex_map" "[ex_day 1, ex_day 2] \<noteq> []"
    by (simp_all add: ex_map_def)
  have d: "distinct (map fst ex_events)" by (simp add: ex_events_def)
  have l0: "filter is_callback (log ex_map) = []" by (simp add: ex_map_def)
  from route_stats_callback_once [OF h ex_addMarkersToMap d ex_routed_days] l0
  obtain stats where
    c: "filter is_callback (log (fst (fold routesfound ex_events (ex_rendered, ex_closure))))
          = [OnRouteStats stats]"
    and len: "length stats = 2"
    and e: "\<forall>(d, m, t) \<in> set ex_events. stats ! d = Some (route_stat m t)"
    by auto
  from e have "stats ! 0 = Some (route_stat 6789 600)" "stats ! 1 = Some (route_stat 12345 1234)"
    by (simp_all add: ex_events_def)
  moreover from len obtain a b where "stats = [a, b]"
    by (metis length_0_conv length_Suc_conv numeral_2_eq_2)
  ultimately have "stats = [Some (route_stat 6789 600), Some (route_stat 12345 1234)]" by simp
  with c h ex_addMarkersToMap d ex_routed_days show ?thesis by simp
qed

end
